theory Spec2Isabelle
  imports Main "HOL-Library.Word"
begin

unbundle bit_operations_syntax

section \<open>Data model of the coordinator server list\<close>

text \<open>
  Modelled from the spec: the capability enum of \<open>WireFormat\<close> and the
  \<open>ServiceMask\<close> class are declared outside the translated sources. The spec
  lists the capabilities MASTER, BACKUP, MEMBERSHIP, PING and ADMIN; a mask is a set
  of them and \<open>mask.has(s)\<close> is membership.
\<close>

datatype ServiceType =
  MASTER_SERVICE | BACKUP_SERVICE | MEMBERSHIP_SERVICE | PING_SERVICE | ADMIN_SERVICE

type_synonym ServiceMask = "ServiceType set"

definition has :: "ServiceMask \<Rightarrow> ServiceType \<Rightarrow> bool" where
  "has m svc = (svc \<in> m)"

datatype ServerStatus = UP | CRASHED | DOWN

text \<open>
  Modelled from the spec: \<open>ServerId\<close> is a 64-bit identity made of a 32-bit
  slot index and a 32-bit generation number; equality is equality of both halves.
\<close>

record ServerId =
  indexNumber :: "32 word"
  generationNumber :: "32 word"

text \<open>
  \<open>CoordinatorServerList::Entry\<close> with the fields inherited from
  \<open>ServerDetails\<close>. The recovery information is an opaque blob.
\<close>

record Entry =
  serverId :: ServerId
  serviceLocator :: string
  services :: ServiceMask
  expectedReadMBytesPerSec :: "32 word"
  status :: ServerStatus
  replicationId :: "64 word"
  masterRecoveryInfo :: "8 word list"
  serverListVersion :: "64 word"
  isBeingUpdated :: "64 word"
  serverInfoLogId :: "64 word"
  serverUpdateLogId :: "64 word"

text \<open>
  The constructor \<open>Entry(serverId, serviceLocator, services)\<close>: read speed 0,
  status UP, no replication group, no log ids.
\<close>

definition Entry_construct :: "ServerId \<Rightarrow> string \<Rightarrow> ServiceMask \<Rightarrow> Entry" where
  "Entry_construct sid locator m =
     \<lparr>serverId = sid, serviceLocator = locator, services = m,
      expectedReadMBytesPerSec = 0, status = UP, replicationId = 0,
      masterRecoveryInfo = [], serverListVersion = 0, isBeingUpdated = 0,
      serverInfoLogId = 0, serverUpdateLogId = 0\<rparr>"

text \<open>
  Modelled from the spec: \<open>isMaster\<close> and \<open>isBackup\<close> belong to
  \<open>ServerDetails\<close>, whose declaration is outside the translated sources. The spec
  counts as masters (backups) the entries that are UP and offer the MASTER (BACKUP)
  service, and the replication-group code gathers "UP backups" through
  \<open>isBackup\<close>.
\<close>

definition isMaster :: "Entry \<Rightarrow> bool" where
  "isMaster e = (status e = UP \<and> has (services e) MASTER_SERVICE)"

definition isBackup :: "Entry \<Rightarrow> bool" where
  "isBackup e = (status e = UP \<and> has (services e) BACKUP_SERVICE)"

text \<open>The wire record \<open>ProtoBuf::ServerList_Entry\<close> and the list message.\<close>

record ServerList_Entry =
  pb_services :: ServiceMask
  pb_server_id :: ServerId
  pb_service_locator :: string
  pb_status :: ServerStatus
  pb_expected_read_mbytes_per_sec :: "32 word"
  pb_replication_id :: "64 word"

datatype ServerList_Type = FULL_LIST | UPDATE

record ServerList =
  server :: "ServerList_Entry list"
  version_number :: "64 word"
  list_type :: "ServerList_Type option"

text \<open>\<open>Clear()\<close> of a message: no entries, fields back to their defaults.\<close>

definition ServerList_Clear :: ServerList where
  "ServerList_Clear = \<lparr>server = [], version_number = 0, list_type = None\<rparr>"

text \<open>\<open>Entry::serialize\<close>.\<close>

definition Entry_serialize :: "Entry \<Rightarrow> ServerList_Entry" where
  "Entry_serialize e =
     \<lparr>pb_services = services e,
      pb_server_id = serverId e,
      pb_service_locator = serviceLocator e,
      pb_status = status e,
      pb_expected_read_mbytes_per_sec =
        (if isBackup e then expectedReadMBytesPerSec e else 0),
      pb_replication_id = replicationId e\<rparr>"

text \<open>A slot of the list: \<open>GenerationNumberEntryPair\<close>.\<close>

record GenerationNumberEntryPair =
  nextGenerationNumber :: "32 word"
  entry :: "Entry option"

text \<open>
  Modelled from the spec: the default-constructed slot that \<open>resize\<close> appends.
  The pair's constructor is outside the translated sources; the spec starts
  \<open>nextGeneration\<close> at 1 and leaves the slot unoccupied.
\<close>

definition defaultPair :: GenerationNumberEntryPair where
  "defaultPair = \<lparr>nextGenerationNumber = 1, entry = None\<rparr>"

text \<open>\<open>std::vector::resize\<close>: truncate, or pad with default-constructed slots.\<close>

definition resize :: "nat \<Rightarrow> GenerationNumberEntryPair list \<Rightarrow> GenerationNumberEntryPair list" where
  "resize n xs = take n xs @ replicate (n - length xs) defaultPair"

text \<open>
  Modelled from the spec: a registered tracker receives change events, each with a copy
  of the entry, and has its callback fired. The tracker is reduced to the queue of
  changes it was handed and the number of callbacks fired on it.
\<close>

datatype ServerChangeEvent = SERVER_ADDED | SERVER_CRASHED | SERVER_REMOVED

record Tracker =
  changes :: "(Entry \<times> ServerChangeEvent) list"
  callbacksFired :: nat

definition enqueueChange :: "Entry \<Rightarrow> ServerChangeEvent \<Rightarrow> Tracker \<Rightarrow> Tracker" where
  "enqueueChange e ev t = t\<lparr>changes := changes t @ [(e, ev)]\<rparr>"

definition fireCallback :: "Tracker \<Rightarrow> Tracker" where
  "fireCallback t = t\<lparr>callbacksFired := Suc (callbacksFired t)\<rparr>"

text \<open>The cursor of the updater's scan, \<open>lastScan\<close>.\<close>

record ScanMetadata =
  noUpdatesFound :: bool
  searchIndex :: nat
  minVersion :: "64 word"

text \<open>
  Modelled from the spec: the durable log is an external collaborator with the
  primitives append (returning a fresh entry id) and invalidate. It is reduced to the
  trace of calls made on it; the entry id handed out is the successor of the last one.
\<close>

datatype LogRecord =
    ServerEnlisting ServerId ServiceMask "32 word" string
  | ServerEnlisted ServerId ServiceMask "32 word" string
  | ForceServerDownRecord ServerId
  | ServerUpdateRecord ServerId "8 word list"

datatype LogCall =
    Append LogRecord "64 word list"
  | Invalidate "64 word list"

text \<open>The state of one \<open>CoordinatorServerList\<close>, with the collaborators it drives.\<close>

record CoordinatorServerList =
  serverList :: "GenerationNumberEntryPair list"
  numberOfMasters :: "32 word"
  numberOfBackups :: "32 word"
  version :: "64 word"
  update :: ServerList
  updates :: "ServerList list"
  lastScan :: ScanMetadata
  nextReplicationId :: "64 word"
  trackers :: "Tracker list"
  recoveries :: "Entry list"
  logCalls :: "LogCall list"
  expectedEntryId :: "64 word"

text \<open>
  The constructor. The slot vector, the pending update and the queue start empty, the
  version at 0 and the next replication id at 1.
\<close>

definition CoordinatorServerList_init :: CoordinatorServerList where
  "CoordinatorServerList_init =
     \<lparr>serverList = [], numberOfMasters = 0, numberOfBackups = 0, version = 0,
      update = ServerList_Clear, updates = [],
      lastScan = \<lparr>noUpdatesFound = False, searchIndex = 0, minVersion = 0\<rparr>,
      nextReplicationId = 1, trackers = [], recoveries = [], logCalls = [],
      expectedEntryId = 0\<rparr>"

text \<open>
  How a call ends: it returns a value and leaves a state, it throws an exception and
  leaves the state reached so far, or a failed \<open>assert\<close> (or an access outside the
  slot vector) stops the process.
\<close>

datatype exn = ServerListException | IndexException

datatype 'a outcome =
    Returns 'a CoordinatorServerList
  | Throws exn CoordinatorServerList
  | Aborts

section \<open>Operations\<close>

text \<open>\<open>iget(ServerId)\<close>: the entry of the id's slot when it carries this very id.\<close>

definition iget :: "CoordinatorServerList \<Rightarrow> ServerId \<Rightarrow> Entry option" where
  "iget s sid =
     (let index = unat (indexNumber sid) in
      if index < length (serverList s) then
        (case entry (serverList s ! index) of
           Some details \<Rightarrow> if serverId details = sid then Some details else None
         | None \<Rightarrow> None)
      else None)"

text \<open>Writing through a reference to the entry of slot \<open>index\<close>.\<close>

definition setEntry :: "nat \<Rightarrow> Entry option \<Rightarrow> CoordinatorServerList \<Rightarrow> CoordinatorServerList" where
  "setEntry index e s =
     s\<lparr>serverList := (serverList s)[index := (serverList s ! index)\<lparr>entry := e\<rparr>]\<rparr>"

text \<open>\<open>update.add_server()\<close> followed by \<open>entry.serialize\<close> into the new record.\<close>

definition add_server :: "Entry \<Rightarrow> CoordinatorServerList \<Rightarrow> CoordinatorServerList" where
  "add_server e s =
     s\<lparr>update := (update s)\<lparr>server := server (update s) @ [Entry_serialize e]\<rparr>\<rparr>"

text \<open>The two \<open>foreach\<close> loops over the trackers: enqueue on each, then fire each.\<close>

definition notifyTrackers ::
  "Entry \<Rightarrow> ServerChangeEvent \<Rightarrow> CoordinatorServerList \<Rightarrow> CoordinatorServerList" where
  "notifyTrackers e ev s =
     s\<lparr>trackers := map fireCallback (map (enqueueChange e ev) (trackers s))\<rparr>"

text \<open>\<open>commitUpdate(lock)\<close>.\<close>

definition commitUpdate :: "CoordinatorServerList \<Rightarrow> CoordinatorServerList" where
  "commitUpdate s =
     (if length (server (update s)) = 0 then s
      else
        let v = version s + 1;
            stamped = (update s)\<lparr>version_number := v, list_type := Some UPDATE\<rparr>
        in s\<lparr>version := v,
             updates := updates s @ [stamped],
             lastScan := (lastScan s)\<lparr>noUpdatesFound := False\<rparr>,
             update := ServerList_Clear\<rparr>)"

text \<open>Sequencing: the next call runs only when the previous one returned.\<close>

definition andThen ::
  "'a outcome \<Rightarrow> ('a \<Rightarrow> CoordinatorServerList \<Rightarrow> 'b outcome) \<Rightarrow> 'b outcome" where
  "andThen m f =
     (case m of Returns a s \<Rightarrow> f a s | Throws e s \<Rightarrow> Throws e s | Aborts \<Rightarrow> Aborts)"

text \<open>
  \<open>getReferenceFromServerId\<close>: the same test as \<open>iget\<close>, with an exception
  in place of the null pointer.
\<close>

definition getReferenceFromServerId :: "CoordinatorServerList \<Rightarrow> ServerId \<Rightarrow> Entry outcome" where
  "getReferenceFromServerId s sid =
     (let index = unat (indexNumber sid) in
      if index < length (serverList s) then
        (case entry (serverList s ! index) of
           Some e \<Rightarrow> if serverId e = sid then Returns e s else Throws ServerListException s
         | None \<Rightarrow> Throws ServerListException s)
      else Throws ServerListException s)"

text \<open>
  \<open>firstFreeIndex\<close>: the scan from index 1, the resize when the scan ran off the
  end, the assertion, and the \<open>downCast\<close> to 32 bits. \<open>downCast\<close> is declared
  outside the translated sources; it is taken to cast and to stop the process when the
  cast value differs from the original one.
\<close>

function firstFreeIndex_scan :: "GenerationNumberEntryPair list \<Rightarrow> nat \<Rightarrow> nat" where
  "firstFreeIndex_scan xs index =
     (if index < length xs then
        (if entry (xs ! index) = None then index
         else firstFreeIndex_scan xs (index + 1))
      else index)"
  by pat_completeness auto
termination
  by (relation "measure (\<lambda>(xs, index). length xs - index)") auto

definition firstFreeIndex :: "CoordinatorServerList \<Rightarrow> (32 word) outcome" where
  "firstFreeIndex s =
     (let index = firstFreeIndex_scan (serverList s) 1;
          s1 = (if index \<ge> length (serverList s)
                then s\<lparr>serverList := resize (index + 1) (serverList s)\<rparr> else s)
      in if index = 0 then Aborts
         else if unat (word_of_nat index :: 32 word) = index then Returns (word_of_nat index) s1
         else Aborts)"

text \<open>\<open>generateUniqueId(lock)\<close>.\<close>

definition generateUniqueId :: "CoordinatorServerList \<Rightarrow> ServerId outcome" where
  "generateUniqueId s =
     andThen (firstFreeIndex s) (\<lambda>index s1.
       let pair = serverList s1 ! unat index;
           sid = \<lparr>indexNumber = index, generationNumber = nextGenerationNumber pair\<rparr>;
           pair1 = pair\<lparr>nextGenerationNumber := nextGenerationNumber pair + 1\<rparr>;
           pair2 = pair1\<lparr>entry := Some (Entry_construct sid [] {})\<rparr>
       in Returns sid (s1\<lparr>serverList := (serverList s1)[unat index := pair2]\<rparr>))"

text \<open>
  \<open>add(lock, serverId, serviceLocator, serviceMask, readSpeed)\<close>. The new size
  \<open>index + 1\<close> is computed in 32 bits; indexing outside the vector stops the
  process.
\<close>

definition add ::
  "CoordinatorServerList \<Rightarrow> ServerId \<Rightarrow> string \<Rightarrow> ServiceMask \<Rightarrow> 32 word \<Rightarrow> unit outcome" where
  "add s sid locator serviceMask readSpeed =
     (let index = indexNumber sid;
          s1 = (if unat index \<ge> length (serverList s)
                then s\<lparr>serverList := resize (unat (index + 1)) (serverList s)\<rparr> else s)
      in if unat index \<ge> length (serverList s1) then Aborts
         else
           let pair = (serverList s1 ! unat index)
                 \<lparr>nextGenerationNumber := generationNumber sid + 1\<rparr>;
               e0 = Entry_construct sid locator serviceMask;
               s2 = (if has serviceMask MASTER_SERVICE
                     then s1\<lparr>numberOfMasters := numberOfMasters s1 + 1\<rparr> else s1);
               s3 = (if has serviceMask BACKUP_SERVICE
                     then s2\<lparr>numberOfBackups := numberOfBackups s2 + 1\<rparr> else s2);
               e = (if has serviceMask BACKUP_SERVICE
                    then e0\<lparr>expectedReadMBytesPerSec := readSpeed\<rparr> else e0);
               s4 = s3\<lparr>serverList := (serverList s3)[unat index := pair\<lparr>entry := Some e\<rparr>]\<rparr>
           in Returns () (notifyTrackers e SERVER_ADDED (add_server e s4)))"

text \<open>\<open>crashed(lock, serverId)\<close>.\<close>

definition crashed :: "CoordinatorServerList \<Rightarrow> ServerId \<Rightarrow> unit outcome" where
  "crashed s sid =
     (let index = unat (indexNumber sid) in
      if index \<ge> length (serverList s) then Throws ServerListException s
      else
        (case entry (serverList s ! index) of
           None \<Rightarrow> Throws ServerListException s
         | Some e \<Rightarrow>
             if serverId e \<noteq> sid then Throws ServerListException s
             else if status e = CRASHED then Returns () s
             else if \<not> (status e \<noteq> DOWN) then Aborts
             else
               let s1 = (if isMaster e
                         then s\<lparr>numberOfMasters := numberOfMasters s - 1\<rparr> else s);
                   s2 = (if isBackup e
                         then s1\<lparr>numberOfBackups := numberOfBackups s1 - 1\<rparr> else s1);
                   e1 = e\<lparr>status := CRASHED\<rparr>;
                   s3 = setEntry index (Some e1) s2
               in Returns () (notifyTrackers e1 SERVER_CRASHED (add_server e1 s3))))"

text \<open>\<open>remove(lock, serverId)\<close>.\<close>

definition remove :: "CoordinatorServerList \<Rightarrow> ServerId \<Rightarrow> unit outcome" where
  "remove s sid =
     (let index = unat (indexNumber sid) in
      if index \<ge> length (serverList s) then Throws ServerListException s
      else
        (case entry (serverList s ! index) of
           None \<Rightarrow> Throws ServerListException s
         | Some e0 \<Rightarrow>
             if serverId e0 \<noteq> sid then Throws ServerListException s
             else
               andThen (crashed s sid) (\<lambda>_ s1.
                 (case entry (serverList s1 ! index) of
                    None \<Rightarrow> Aborts
                  | Some e \<Rightarrow>
                      let e1 = e\<lparr>status := DOWN\<rparr>;
                          s2 = add_server e1 (setEntry index (Some e1) s1);
                          removedEntry = e1;
                          s3 = setEntry index None s2
                      in Returns () (notifyTrackers removedEntry SERVER_REMOVED s3)))))"

text \<open>\<open>setReplicationId(lock, serverId, replicationId)\<close>.\<close>

definition setReplicationId ::
  "CoordinatorServerList \<Rightarrow> ServerId \<Rightarrow> 64 word \<Rightarrow> unit outcome" where
  "setReplicationId s sid rid =
     andThen (getReferenceFromServerId s sid) (\<lambda>e s1.
       if status e \<noteq> UP then Returns () s1
       else
         let e1 = e\<lparr>replicationId := rid\<rparr>
         in Returns () (add_server e1 (setEntry (unat (indexNumber sid)) (Some e1) s1)))"

text \<open>\<open>assignReplicationGroup(lock, replicationId, replicationGroupIds)\<close>.\<close>

fun assignReplicationGroup ::
  "CoordinatorServerList \<Rightarrow> 64 word \<Rightarrow> ServerId list \<Rightarrow> bool outcome" where
  "assignReplicationGroup s rid [] = Returns True s"
| "assignReplicationGroup s rid (backupId # rest) =
     (if iget s backupId = None then Returns False s
      else andThen (setReplicationId s backupId rid)
             (\<lambda>_ s1. assignReplicationGroup s1 rid rest))"

text \<open>
  \<open>createReplicationGroup(lock)\<close>. First the scan that pushes the id of every
  backup without a group onto \<open>freeBackups\<close>; then, while at least three ids
  remain, three times \<open>back()\<close> and \<open>pop_back()\<close> into \<open>group\<close>, the
  assignment (its result is not looked at) and the increment of the next group id.
\<close>

fun collectFreeBackups ::
  "GenerationNumberEntryPair list \<Rightarrow> ServerId list \<Rightarrow> ServerId list" where
  "collectFreeBackups [] freeBackups = freeBackups"
| "collectFreeBackups (p # ps) freeBackups =
     (case entry p of
        None \<Rightarrow> collectFreeBackups ps freeBackups
      | Some e \<Rightarrow>
          if isBackup e \<and> replicationId e = 0
          then collectFreeBackups ps (freeBackups @ [serverId e])
          else collectFreeBackups ps freeBackups)"

fun popBackups :: "nat \<Rightarrow> ServerId list \<Rightarrow> ServerId list \<Rightarrow> ServerId list \<times> ServerId list" where
  "popBackups 0 freeBackups grp = (freeBackups, grp)"
| "popBackups (Suc k) freeBackups grp =
     popBackups k (butlast freeBackups) (grp @ [last freeBackups])"

lemma length_popBackups:
  "length (fst (popBackups k freeBackups grp)) = length freeBackups - k"
  by (induction k arbitrary: freeBackups grp) auto

definition numReplicas :: nat where
  "numReplicas = 3"

function createGroups :: "CoordinatorServerList \<Rightarrow> ServerId list \<Rightarrow> unit outcome" where
  "createGroups s freeBackups =
     (if length freeBackups \<ge> numReplicas then
        (case assignReplicationGroup s (nextReplicationId s)
                (snd (popBackups numReplicas freeBackups [])) of
           Returns _ s1 \<Rightarrow>
             createGroups (s1\<lparr>nextReplicationId := nextReplicationId s1 + 1\<rparr>)
               (fst (popBackups numReplicas freeBackups []))
         | Throws e s1 \<Rightarrow> Throws e s1
         | Aborts \<Rightarrow> Aborts)
      else Returns () s)"
  by pat_completeness auto
termination
  by (relation "measure (\<lambda>(s, freeBackups). length freeBackups)")
     (auto simp: length_popBackups numReplicas_def)

definition createReplicationGroup :: "CoordinatorServerList \<Rightarrow> unit outcome" where
  "createReplicationGroup s = createGroups s (collectFreeBackups (serverList s) [])"

text \<open>
  \<open>removeReplicationGroup(lock, groupId)\<close>. The assignment of group 0 to the ids
  gathered so far sits inside the scan over the slots.
\<close>

lemma length_setReplicationId:
  "setReplicationId s sid rid = Returns x s1 \<Longrightarrow>
     length (serverList s1) = length (serverList s)"
  by (auto simp: setReplicationId_def getReferenceFromServerId_def andThen_def Let_def
      setEntry_def add_server_def split: if_splits option.splits)

lemma length_assignReplicationGroup:
  "assignReplicationGroup s rid ids = Returns x s1 \<Longrightarrow>
     length (serverList s1) = length (serverList s)"
proof (induction ids arbitrary: s)
  case Nil
  then show ?case by simp
next
  case (Cons b ids)
  show ?case
  proof (cases "iget s b = None")
    case True
    with Cons.prems show ?thesis by simp
  next
    case False
    with Cons.prems obtain u s2 where
      a: "setReplicationId s b rid = Returns u s2" and
      b: "assignReplicationGroup s2 rid ids = Returns x s1"
      by (auto simp: andThen_def split: outcome.splits)
    from Cons.IH [OF b] length_setReplicationId [OF a] show ?thesis by simp
  qed
qed

function removeReplicationGroup_scan ::
  "CoordinatorServerList \<Rightarrow> 64 word \<Rightarrow> nat \<Rightarrow> ServerId list \<Rightarrow> unit outcome" where
  "removeReplicationGroup_scan s groupId i grp =
     (if i < length (serverList s) then
        (let grp1 =
               (case entry (serverList s ! i) of
                  None \<Rightarrow> grp
                | Some e \<Rightarrow>
                    if isBackup e \<and> replicationId e = groupId
                    then grp @ [serverId e] else grp)
         in if length grp1 \<noteq> 0 then
              (case assignReplicationGroup s 0 grp1 of
                 Returns _ s1 \<Rightarrow> removeReplicationGroup_scan s1 groupId (i + 1) grp1
               | Throws e s1 \<Rightarrow> Throws e s1
               | Aborts \<Rightarrow> Aborts)
            else removeReplicationGroup_scan s groupId (i + 1) grp1)
      else Returns () s)"
  by pat_completeness auto
termination
  by (relation "measure (\<lambda>(s, groupId, i, grp). length (serverList s) - i)")
     (auto dest: length_assignReplicationGroup)

definition removeReplicationGroup :: "CoordinatorServerList \<Rightarrow> 64 word \<Rightarrow> unit outcome" where
  "removeReplicationGroup s groupId =
     (if groupId = 0 then Returns () s
      else removeReplicationGroup_scan s groupId 0 [])"

text \<open>
  \<open>serialize(lock, protoBuf, services)\<close>: the scan over the slots in order,
  appending to the message it was handed, then the stamp.
\<close>

fun serialize_scan ::
  "GenerationNumberEntryPair list \<Rightarrow> ServiceMask \<Rightarrow> ServerList \<Rightarrow> ServerList" where
  "serialize_scan [] svcs protoBuf = protoBuf"
| "serialize_scan (p # ps) svcs protoBuf =
     (case entry p of
        None \<Rightarrow> serialize_scan ps svcs protoBuf
      | Some e \<Rightarrow>
          if (has (services e) MASTER_SERVICE \<and> has svcs MASTER_SERVICE) \<or>
             (has (services e) BACKUP_SERVICE \<and> has svcs BACKUP_SERVICE)
          then serialize_scan ps svcs
                 (protoBuf\<lparr>server := server protoBuf @ [Entry_serialize e]\<rparr>)
          else serialize_scan ps svcs protoBuf)"

definition serialize :: "CoordinatorServerList \<Rightarrow> ServerList \<Rightarrow> ServiceMask \<Rightarrow> ServerList" where
  "serialize s protoBuf svcs =
     (serialize_scan (serverList s) svcs protoBuf)
       \<lparr>version_number := version s, list_type := Some FULL_LIST\<rparr>"

text \<open>The overload without a mask.\<close>

definition serialize_default :: "CoordinatorServerList \<Rightarrow> ServerList \<Rightarrow> ServerList" where
  "serialize_default s protoBuf = serialize s protoBuf {MASTER_SERVICE, BACKUP_SERVICE}"

section \<open>Operations logged in the durable log\<close>


definition invalidate :: "64 word list \<Rightarrow> CoordinatorServerList \<Rightarrow> CoordinatorServerList" where
  "invalidate ids s =
     s\<lparr>logCalls := logCalls s @ [Invalidate ids],
       expectedEntryId := expectedEntryId s + 1\<rparr>"

text \<open>
  Modelled from the spec: the recovery manager is an external collaborator; the call
  \<open>startMasterRecovery(entry)\<close> is recorded with the entry it was given.
\<close>

definition startMasterRecovery :: "Entry \<Rightarrow> CoordinatorServerList \<Rightarrow> CoordinatorServerList" where
  "startMasterRecovery e s = s\<lparr>recoveries := recoveries s @ [e]\<rparr>"


definition getServerInfoLogId :: "CoordinatorServerList \<Rightarrow> ServerId \<Rightarrow> (64 word) outcome" where
  "getServerInfoLogId s sid =
     andThen (getReferenceFromServerId s sid) (\<lambda>e s1. Returns (serverInfoLogId e) s1)"


definition getServerUpdateLogId :: "CoordinatorServerList \<Rightarrow> ServerId \<Rightarrow> (64 word) outcome" where
  "getServerUpdateLogId s sid =
     andThen (getReferenceFromServerId s sid) (\<lambda>e s1. Returns (serverUpdateLogId e) s1)"

text \<open>\<open>ForceServerDown::complete(entryId)\<close> and \<open>ForceServerDown::execute()\<close>.\<close>

definition ForceServerDown_complete ::
  "CoordinatorServerList \<Rightarrow> ServerId \<Rightarrow> 64 word \<Rightarrow> unit outcome" where
  "ForceServerDown_complete s sid entryId =
     andThen (getServerInfoLogId s sid) (\<lambda>infoLogId s1.
     andThen (getServerUpdateLogId s1 sid) (\<lambda>updateLogId s2.
     andThen (getReferenceFromServerId s2 sid) (\<lambda>e s3.
     andThen (crashed s3 sid) (\<lambda>_ s4.
     andThen (if \<not> has (services e) MASTER_SERVICE then remove s4 sid else Returns () s4)
       (\<lambda>_ s5.
     andThen (removeReplicationGroup (startMasterRecovery e s5) (replicationId e)) (\<lambda>_ s6.
     andThen (createReplicationGroup s6) (\<lambda>_ s7.
       Returns ()
         (invalidate
            ([infoLogId, entryId] @ (if updateLogId \<noteq> 0 then [updateLogId] else []))
            s7))))))))"

















section \<open>The updater's view of the queue\<close>







section \<open>Calls and reachable states\<close>






section \<open>Hash table entries\<close>

text \<open>
  Modelled from the spec: \<open>HashTable::Entry::pack\<close> and \<open>unpack\<close> are
  declared and defined outside the translated sources (only their unit tests are
  there). The spec gives the 64-bit word as a 16-bit secondary hash in the high bits,
  then a 1-bit chain flag, then a 47-bit reference, and has packing refuse a
  reference that does not fit in 47 bits.
\<close>

datatype ohi_error = OutOfRange

record UnpackedEntry =
  u_hash :: "64 word"
  u_chain :: bool
  u_ptr :: "64 word"

definition pack :: "64 word \<Rightarrow> bool \<Rightarrow> 64 word \<Rightarrow> ohi_error + 64 word" where
  "pack hash chain ptr =
     (if drop_bit 47 ptr \<noteq> 0 then Inl OutOfRange
      else Inr (push_bit 48 hash OR push_bit 47 (if chain then 1 else 0) OR ptr))"

definition unpack :: "64 word \<Rightarrow> UnpackedEntry" where
  "unpack v =
     \<lparr>u_hash = take_bit 16 (drop_bit 48 v),
      u_chain = bit v 47,
      u_ptr = take_bit 47 v\<rparr>"

section \<open>Vocabulary for the effects on replication groups\<close>

text \<open>
  The invariant that every occupied slot holds an entry whose id has the slot's own index
  (\<open>add\<close> and \<open>generateUniqueId\<close> store an entry at the index of its id).
\<close>

definition slotsConsistent :: "CoordinatorServerList \<Rightarrow> bool" where
  "slotsConsistent s =
     (\<forall>i \<in> set [0..<length (serverList s)].
        case entry (serverList s ! i) of
          None \<Rightarrow> True
        | Some e \<Rightarrow> unat (indexNumber (serverId e)) = i)"

text \<open>
  A slot after the replication id of its entry was overwritten, when the entry's id is
  one of \<open>G\<close>.
\<close>

definition setRid :: "64 word \<Rightarrow> ServerId set \<Rightarrow> GenerationNumberEntryPair \<Rightarrow> GenerationNumberEntryPair" where
  "setRid rid G p =
     (case entry p of
        None \<Rightarrow> p
      | Some e \<Rightarrow> if serverId e \<in> G then p\<lparr>entry := Some (e\<lparr>replicationId := rid\<rparr>)\<rparr> else p)"

text \<open>
  The record appended for id \<open>b\<close> when its replication id is set to \<open>rid\<close>.
\<close>

definition recordOf :: "CoordinatorServerList \<Rightarrow> 64 word \<Rightarrow> ServerId \<Rightarrow> ServerList_Entry" where
  "recordOf s rid b = Entry_serialize ((the (iget s b))\<lparr>replicationId := rid\<rparr>)"

text \<open>
  The state after one entry was overwritten in place and the pending update replaced.
\<close>

definition setOne :: "CoordinatorServerList \<Rightarrow> ServerId \<Rightarrow> Entry \<Rightarrow> ServerList \<Rightarrow> CoordinatorServerList" where
  "setOne s b e1 U =
     s\<lparr>serverList := (serverList s)[unat (indexNumber b) :=
          (serverList s ! unat (indexNumber b))\<lparr>entry := Some e1\<rparr>],
       update := U\<rparr>"

text \<open>
  The state after a group of ids got the replication id \<open>rid\<close> and the records
  \<open>recs\<close> were appended to the pending update.
\<close>

definition assigned :: "CoordinatorServerList \<Rightarrow> 64 word \<Rightarrow> ServerId list \<Rightarrow> ServerList_Entry list \<Rightarrow> CoordinatorServerList" where
  "assigned s rid ids recs =
     s\<lparr>serverList := map (setRid rid (set ids)) (serverList s),
       update := (update s)\<lparr>server := server (update s) @ recs\<rparr>\<rparr>"

text \<open>
  Whether slot \<open>j\<close> holds an UP backup of group \<open>gid\<close>.
\<close>

definition matchAt :: "CoordinatorServerList \<Rightarrow> 64 word \<Rightarrow> nat \<Rightarrow> bool" where
  "matchAt s gid j =
     (case entry (serverList s ! j) of
        None \<Rightarrow> False
      | Some e \<Rightarrow> isBackup e \<and> replicationId e = gid)"

text \<open>
  The id of the entry in slot \<open>j\<close>.
\<close>

definition idAt :: "CoordinatorServerList \<Rightarrow> nat \<Rightarrow> ServerId" where
  "idAt s j = serverId (the (entry (serverList s ! j)))"

text \<open>
  The ids of the UP backups of group \<open>gid\<close> in the slots from \<open>i\<close> up to, not
  including, \<open>k\<close>, in slot order.
\<close>

definition groupMembers :: "CoordinatorServerList \<Rightarrow> 64 word \<Rightarrow> nat \<Rightarrow> nat \<Rightarrow> ServerId list" where
  "groupMembers s gid i k = map (idAt s) (filter (matchAt s gid) [i..<k])"

text \<open>
  The ids of a stack (top first) taken three at a time, each paired with the replication
  id it is given: the first three with \<open>rid\<close>, the next three with \<open>rid + 1\<close>,
  and so on; fewer than three left over are not paired.
\<close>

fun groupIds :: "64 word \<Rightarrow> ServerId list \<Rightarrow> (ServerId \<times> 64 word) list" where
  "groupIds rid (a # b # c # rest) = (a, rid) # (b, rid) # (c, rid) # groupIds (rid + 1) rest"
| "groupIds rid rest = []"

text \<open>
  The state after the ids of a stack (top first) were taken three at a time and each three
  given the next replication id, which is then incremented.
\<close>

fun groupsAssigned :: "CoordinatorServerList \<Rightarrow> ServerId list \<Rightarrow> CoordinatorServerList" where
  "groupsAssigned s (a # b # c # rest) =
     groupsAssigned
       ((assigned s (nextReplicationId s) [a, b, c]
           (map (recordOf s (nextReplicationId s)) [a, b, c]))
          \<lparr>nextReplicationId := nextReplicationId s + 1\<rparr>)
       rest"
| "groupsAssigned s rest = s"

text \<open>
  The state after an UP entry \<open>e\<close> with id \<open>sid\<close> was marked as crashed.
\<close>

definition afterCrashed :: "CoordinatorServerList \<Rightarrow> ServerId \<Rightarrow> Entry \<Rightarrow> CoordinatorServerList" where
  "afterCrashed s sid e =
     notifyTrackers (e\<lparr>status := CRASHED\<rparr>) SERVER_CRASHED
       (add_server (e\<lparr>status := CRASHED\<rparr>)
          (setEntry (unat (indexNumber sid)) (Some (e\<lparr>status := CRASHED\<rparr>))
             (s\<lparr>numberOfMasters :=
                   (if has (services e) MASTER_SERVICE then numberOfMasters s - 1
                    else numberOfMasters s),
                 numberOfBackups :=
                   (if has (services e) BACKUP_SERVICE then numberOfBackups s - 1
                    else numberOfBackups s)\<rparr>)))"

text \<open>
  The state after the entry \<open>e\<close> with id \<open>sid\<close> was set to DOWN, recorded and destroyed.
\<close>

definition afterRemoved :: "CoordinatorServerList \<Rightarrow> ServerId \<Rightarrow> Entry \<Rightarrow> CoordinatorServerList" where
  "afterRemoved s sid e =
     notifyTrackers (e\<lparr>status := DOWN\<rparr>) SERVER_REMOVED
       (setEntry (unat (indexNumber sid)) None
          (add_server (e\<lparr>status := DOWN\<rparr>)
             (setEntry (unat (indexNumber sid)) (Some (e\<lparr>status := DOWN\<rparr>)) s)))"

text \<open>
  The state after \<open>crashed\<close> on the entry \<open>e\<close> with id \<open>sid\<close>, which is
  not DOWN: nothing happens to an entry that is CRASHED already.
\<close>

definition afterCrashedCall :: "CoordinatorServerList \<Rightarrow> ServerId \<Rightarrow> Entry \<Rightarrow> CoordinatorServerList" where
  "afterCrashedCall s sid e = (if status e = CRASHED then s else afterCrashed s sid e)"

text \<open>
  The state after the first half of \<open>ForceServerDown::complete\<close>: the victim is
  crashed unless it was already, removed as well when it offers no master service, and
  the recovery manager was told.
\<close>

definition afterVictimDown :: "CoordinatorServerList \<Rightarrow> ServerId \<Rightarrow> Entry \<Rightarrow> CoordinatorServerList" where
  "afterVictimDown s sid e =
     startMasterRecovery e
       (if has (services e) MASTER_SERVICE then afterCrashedCall s sid e
        else afterRemoved (afterCrashedCall s sid e) sid (e\<lparr>status := CRASHED\<rparr>))"

text \<open>
  The state after \<open>removeReplicationGroup\<close> on a list whose slots hold ids of
  their own index.
\<close>

definition afterGroupReset :: "CoordinatorServerList \<Rightarrow> 64 word \<Rightarrow> CoordinatorServerList" where
  "afterGroupReset s gid =
     (if gid = 0 then s
      else assigned s 0 (groupMembers s gid 0 (length (serverList s)))
             (concat (map (\<lambda>k. map (recordOf s 0) (groupMembers s gid 0 (Suc k)))
                [0..<length (serverList s)])))"

text \<open>
  The state after \<open>createReplicationGroup\<close> on such a list.
\<close>

definition afterRegroup :: "CoordinatorServerList \<Rightarrow> CoordinatorServerList" where
  "afterRegroup s = groupsAssigned s (rev (groupMembers s 0 0 (length (serverList s))))"

text \<open>
  The index \<open>firstFreeIndex\<close> settles on.
\<close>

definition freshIndex :: "CoordinatorServerList \<Rightarrow> nat" where
  "freshIndex s = firstFreeIndex_scan (serverList s) 1"

text \<open>
  The slot vector after \<open>firstFreeIndex\<close>: resized when the index lies past its end.
\<close>

definition grown :: "CoordinatorServerList \<Rightarrow> GenerationNumberEntryPair list" where
  "grown s =
     (if freshIndex s \<ge> length (serverList s)
      then resize (freshIndex s + 1) (serverList s) else serverList s)"

text \<open>
  The id \<open>generateUniqueId\<close> hands out.
\<close>

definition freshId :: "CoordinatorServerList \<Rightarrow> ServerId" where
  "freshId s =
     \<lparr>indexNumber = word_of_nat (freshIndex s),
      generationNumber = nextGenerationNumber (grown s ! freshIndex s)\<rparr>"

text \<open>
  The state after \<open>generateUniqueId\<close>: the slot reserved by a placeholder entry.
\<close>

definition afterGenerate :: "CoordinatorServerList \<Rightarrow> CoordinatorServerList" where
  "afterGenerate s =
     s\<lparr>serverList := (grown s)[freshIndex s :=
          \<lparr>nextGenerationNumber = nextGenerationNumber (grown s ! freshIndex s) + 1,
           entry = Some (Entry_construct (freshId s) [] {})\<rparr>]\<rparr>"



section \<open>Vocabulary for the queue of updates\<close>







section \<open>Example states\<close>

text \<open>
  Small concrete lists on which the theorems below are instantiated: an entry with a
  given id, mask, status and replication group, the slot holding it, and a list with
  one registered tracker.
\<close>

definition exId :: "32 word \<Rightarrow> 32 word \<Rightarrow> ServerId" where
  "exId i g = \<lparr>indexNumber = i, generationNumber = g\<rparr>"

definition exEntry ::
  "32 word \<Rightarrow> 32 word \<Rightarrow> ServiceMask \<Rightarrow> ServerStatus \<Rightarrow> 64 word \<Rightarrow> Entry" where
  "exEntry i g m st rid =
     (Entry_construct (exId i g) ''tcp:host'' m)\<lparr>status := st, replicationId := rid\<rparr>"

definition exSlot :: "Entry \<Rightarrow> GenerationNumberEntryPair" where
  "exSlot e = \<lparr>nextGenerationNumber = generationNumber (serverId e) + 1, entry = Some e\<rparr>"

definition exState :: "GenerationNumberEntryPair list \<Rightarrow> CoordinatorServerList" where
  "exState slots =
     CoordinatorServerList_init
       \<lparr>serverList := slots, trackers := [\<lparr>changes = [], callbacksFired = 0\<rparr>]\<rparr>"

text \<open>
  Slot 1 holds an UP master and backup, slot 2 a CRASHED master, slot 3 is free with
  next generation 5, slot 4 holds an UP backup.
\<close>

definition exMixed :: CoordinatorServerList where
  "exMixed = exState
     [defaultPair,
      exSlot (exEntry 1 1 {MASTER_SERVICE, BACKUP_SERVICE} UP 0),
      exSlot (exEntry 2 1 {MASTER_SERVICE} CRASHED 0),
      \<lparr>nextGenerationNumber = 5, entry = None\<rparr>,
      exSlot (exEntry 4 1 {BACKUP_SERVICE} UP 0)]"

text \<open>Slot 1 holds an UP server that offers the membership service only.\<close>

definition exMembership :: CoordinatorServerList where
  "exMembership = exState [defaultPair, exSlot (exEntry 1 1 {MEMBERSHIP_SERVICE} UP 0)]"


text \<open>Slots 1 to 4 hold UP backups without a replication group.\<close>

definition exFour :: CoordinatorServerList where
  "exFour = exState
     [defaultPair,
      exSlot (exEntry 1 1 {BACKUP_SERVICE} UP 0),
      exSlot (exEntry 2 1 {BACKUP_SERVICE} UP 0),
      exSlot (exEntry 3 1 {BACKUP_SERVICE} UP 0),
      exSlot (exEntry 4 1 {BACKUP_SERVICE} UP 0)]"

text \<open>Slots 1 to 3 hold the UP backups of replication group 7; the one in slot 1 is a master too.\<close>

definition exTrio :: CoordinatorServerList where
  "exTrio = exState
     [defaultPair,
      exSlot (exEntry 1 1 {MASTER_SERVICE, BACKUP_SERVICE} UP 7),
      exSlot (exEntry 2 1 {BACKUP_SERVICE} UP 7),
      exSlot (exEntry 3 1 {BACKUP_SERVICE} UP 7)]"

text \<open>The three backups of group 7 as above, and in slot 4 an UP backup without a group.\<close>

definition exTrioFree :: CoordinatorServerList where
  "exTrioFree = exState
     [defaultPair,
      exSlot (exEntry 1 1 {MASTER_SERVICE, BACKUP_SERVICE} UP 7),
      exSlot (exEntry 2 1 {BACKUP_SERVICE} UP 7),
      exSlot (exEntry 3 1 {BACKUP_SERVICE} UP 7),
      exSlot (exEntry 4 1 {BACKUP_SERVICE} UP 0)]"





section \<open>Committing the pending update\<close>

text \<open>
  C1. With an empty pending update \<open>commitUpdate\<close> changes nothing at all. With a
  non-empty one it adds exactly 1 to the version (a 64-bit counter), appends to the
  queue the pending update stamped with type UPDATE and the new version, clears the
  pending update and clears the no-updates-found flag of the scan cursor.
\<close>

theorem commitUpdate_empty_or_stamped:
  "(server (update s) = [] \<longrightarrow> commitUpdate s = s) \<and>
   (server (update s) \<noteq> [] \<longrightarrow>
      version (commitUpdate s) = version s + 1 \<and>
      updates (commitUpdate s) =
        updates s @ [\<lparr>server = server (update s), version_number = version s + 1,
                      list_type = Some UPDATE\<rparr>] \<and>
      update (commitUpdate s) = ServerList_Clear \<and>
      server (update (commitUpdate s)) = [] \<and>
      noUpdatesFound (lastScan (commitUpdate s)) = False)"
  by (simp add: commitUpdate_def Let_def ServerList_Clear_def)

theorem commitUpdate_empty_or_stamped_witness:
  "server (update exMixed) = [] \<and> commitUpdate exMixed = exMixed \<and>
   server (update (add_server (exEntry 1 1 {MASTER_SERVICE} UP 0) exMixed)) \<noteq> [] \<and>
   version (commitUpdate (add_server (exEntry 1 1 {MASTER_SERVICE} UP 0) exMixed)) = 1 \<and>
   map version_number
     (updates (commitUpdate (add_server (exEntry 1 1 {MASTER_SERVICE} UP 0) exMixed))) = [1]"
  using commitUpdate_empty_or_stamped [of exMixed]
    commitUpdate_empty_or_stamped [of "add_server (exEntry 1 1 {MASTER_SERVICE} UP 0) exMixed"]
  by (simp add: exMixed_def exState_def CoordinatorServerList_init_def add_server_def
      ServerList_Clear_def)

section \<open>Looking up an id\<close>

lemma iget_None_iff:
  "iget s sid = None \<longleftrightarrow>
     (unat (indexNumber sid) \<ge> length (serverList s) \<or>
      (case entry (serverList s ! unat (indexNumber sid)) of None \<Rightarrow> True
       | Some e \<Rightarrow> serverId e \<noteq> sid))"
  by (auto simp: iget_def Let_def split: option.splits)

lemma iget_Some_iff:
  "iget s sid = Some e \<longleftrightarrow>
     (unat (indexNumber sid) < length (serverList s) \<and>
      entry (serverList s ! unat (indexNumber sid)) = Some e \<and> serverId e = sid)"
  by (auto simp: iget_def Let_def split: option.splits)

section \<open>Marking a server as crashed\<close>

text \<open>
  C6. \<open>crashed\<close> throws the server-list exception (the spec's UnknownServer),
  leaving the state as it was, when the id is not the one held by its slot (index
  beyond the vector, slot empty, or another id in the slot). It returns without any
  change when the entry is already CRASHED. Its assertion stops the process when the
  entry is DOWN. When the entry is UP the call returns, and: the entry's status is
  CRASHED, the master counter is one less iff the entry offers MASTER, the backup
  counter is one less iff it offers BACKUP, one record (the serialized crashed entry)
  is appended to the pending update, every tracker got the crashed entry with the event
  SERVER_CRASHED and had its callback fired, and nothing else changed.
\<close>

theorem crashed_cases:
  "(iget s sid = None \<longrightarrow> crashed s sid = Throws ServerListException s) \<and>
   (\<forall>e. iget s sid = Some e \<and> status e = CRASHED \<longrightarrow> crashed s sid = Returns () s) \<and>
   (\<forall>e. iget s sid = Some e \<and> status e = DOWN \<longrightarrow> crashed s sid = Aborts) \<and>
   (\<forall>e. iget s sid = Some e \<and> status e = UP \<longrightarrow>
      crashed s sid = Returns ()
        (s\<lparr>numberOfMasters :=
             (if has (services e) MASTER_SERVICE then numberOfMasters s - 1
              else numberOfMasters s),
           numberOfBackups :=
             (if has (services e) BACKUP_SERVICE then numberOfBackups s - 1
              else numberOfBackups s),
           serverList := (serverList s)[unat (indexNumber sid) :=
             (serverList s ! unat (indexNumber sid))
               \<lparr>entry := Some (e\<lparr>status := CRASHED\<rparr>)\<rparr>],
           update := (update s)\<lparr>server :=
             server (update s) @ [Entry_serialize (e\<lparr>status := CRASHED\<rparr>)]\<rparr>,
           trackers :=
             map (\<lambda>t. fireCallback (enqueueChange (e\<lparr>status := CRASHED\<rparr>) SERVER_CRASHED t))
               (trackers s)\<rparr>))"
  apply (intro conjI allI impI)
     apply (auto simp: iget_None_iff crashed_def Let_def split: option.splits)[1]
    apply (auto simp: iget_Some_iff crashed_def Let_def split: option.splits)[1]
   apply (auto simp: iget_Some_iff crashed_def Let_def split: option.splits)[1]
  apply (auto simp: iget_Some_iff crashed_def Let_def isMaster_def isBackup_def setEntry_def
      add_server_def notifyTrackers_def split: option.splits)
  done

theorem crashed_cases_witness:
  "iget exMixed (exId 3 1) = None \<and>
   crashed exMixed (exId 3 1) = Throws ServerListException exMixed \<and>
   iget exMixed (exId 2 1) = Some (exEntry 2 1 {MASTER_SERVICE} CRASHED 0) \<and>
   crashed exMixed (exId 2 1) = Returns () exMixed \<and>
   iget exMixed (exId 1 1) = Some (exEntry 1 1 {MASTER_SERVICE, BACKUP_SERVICE} UP 0) \<and>
   (\<exists>s'. crashed exMixed (exId 1 1) = Returns () s' \<and>
         numberOfMasters s' = numberOfMasters exMixed - 1 \<and>
         numberOfBackups s' = numberOfBackups exMixed - 1 \<and>
         map pb_status (server (update s')) = [CRASHED]) \<and>
   iget exMixed (exId 4 1) = Some (exEntry 4 1 {BACKUP_SERVICE} UP 0) \<and>
   (\<exists>s'. crashed exMixed (exId 4 1) = Returns () s' \<and>
         numberOfMasters s' = numberOfMasters exMixed \<and>
         numberOfBackups s' = numberOfBackups exMixed - 1)"
  using crashed_cases [of exMixed "exId 3 1"] crashed_cases [of exMixed "exId 2 1"]
    crashed_cases [of exMixed "exId 1 1"] crashed_cases [of exMixed "exId 4 1"]
  by (simp add: exMixed_def exState_def exSlot_def exEntry_def exId_def iget_def
      Entry_construct_def CoordinatorServerList_init_def has_def Entry_serialize_def
      ServerList_Clear_def)

section \<open>Issuing a fresh server id\<close>

declare firstFreeIndex_scan.simps [simp del]

lemma scan_ge: "index \<le> firstFreeIndex_scan xs index"
  by (induction xs index rule: firstFreeIndex_scan.induct)
     (subst firstFreeIndex_scan.simps, auto)

lemma scan_le: "firstFreeIndex_scan xs index \<le> max index (length xs)"
  by (induction xs index rule: firstFreeIndex_scan.induct)
     (subst firstFreeIndex_scan.simps, auto)

lemma scan_occupied:
  "index \<le> j \<Longrightarrow> j < firstFreeIndex_scan xs index \<Longrightarrow>
     j < length xs \<and> entry (xs ! j) \<noteq> None"
proof (induction xs index rule: firstFreeIndex_scan.induct)
  case (1 xs index)
  show ?case
  proof (cases "index < length xs \<and> entry (xs ! index) \<noteq> None")
    case True
    then have eq: "firstFreeIndex_scan xs index = firstFreeIndex_scan xs (index + 1)"
      by (subst firstFreeIndex_scan.simps) auto
    show ?thesis
    proof (cases "j = index")
      case True
      with \<open>index < length xs \<and> entry (xs ! index) \<noteq> None\<close> show ?thesis by simp
    next
      case False
      with "1.prems" have "index + 1 \<le> j" by simp
      moreover from "1.prems" eq have "j < firstFreeIndex_scan xs (index + 1)" by simp
      ultimately show ?thesis using "1.IH" True by simp
    qed
  next
    case False
    then have "firstFreeIndex_scan xs index = index"
      by (subst firstFreeIndex_scan.simps) auto
    with "1.prems" show ?thesis by simp
  qed
qed

lemma scan_free:
  "firstFreeIndex_scan xs index < length xs \<Longrightarrow>
     entry (xs ! firstFreeIndex_scan xs index) = None"
proof (induction xs index rule: firstFreeIndex_scan.induct)
  case (1 xs index)
  show ?case
  proof (cases "index < length xs \<and> entry (xs ! index) \<noteq> None")
    case True
    then have eq: "firstFreeIndex_scan xs index = firstFreeIndex_scan xs (index + 1)"
      by (subst firstFreeIndex_scan.simps) auto
    with "1.prems" "1.IH" True show ?thesis by simp
  next
    case False
    then have eq: "firstFreeIndex_scan xs index = index"
      by (subst firstFreeIndex_scan.simps) auto
    with "1.prems" False show ?thesis by auto
  qed
qed

lemma firstFreeIndex_Returns:
  assumes "length (serverList s) < 2 ^ 32"
  shows "firstFreeIndex s =
           Returns (word_of_nat (firstFreeIndex_scan (serverList s) 1))
             (if firstFreeIndex_scan (serverList s) 1 \<ge> length (serverList s)
              then s\<lparr>serverList :=
                       resize (firstFreeIndex_scan (serverList s) 1 + 1) (serverList s)\<rparr>
              else s)"
proof -
  have "1 \<le> firstFreeIndex_scan (serverList s) 1" by (rule scan_ge)
  moreover have "firstFreeIndex_scan (serverList s) 1 \<le> max 1 (length (serverList s))"
    by (rule scan_le)
  then have "firstFreeIndex_scan (serverList s) 1 < 2 ^ 32" using assms by auto
  then have "unat (word_of_nat (firstFreeIndex_scan (serverList s) 1) :: 32 word) =
             firstFreeIndex_scan (serverList s) 1"
    by (simp add: unat_of_nat)
  ultimately show ?thesis by (simp add: firstFreeIndex_def Let_def)
qed

text \<open>
  C7. On a slot vector that a 32-bit index can address, \<open>generateUniqueId\<close>
  returns an id whose index is at least 1 (never 0), every index from 1 below it is an
  occupied slot, and the slot at it is unoccupied or lies just past the vector, which
  is then grown to hold it (the slots added in between are default ones). The id's
  generation is the slot's next generation number before the call (that of a
  default slot when the slot is new); after the call the slot's next generation number
  is one more and the slot holds the placeholder entry with this id, an empty locator
  and an empty service mask. No other slot and no other field of the state changes.
\<close>

theorem generateUniqueId_smallest_free:
  assumes "length (serverList s) < 2 ^ 32"
  shows "\<exists>sid s'. generateUniqueId s = Returns sid s' \<and>
           indexNumber sid \<noteq> 0 \<and>
           1 \<le> unat (indexNumber sid) \<and>
           (\<forall>j. 1 \<le> j \<and> j < unat (indexNumber sid) \<longrightarrow>
                j < length (serverList s) \<and> entry (serverList s ! j) \<noteq> None) \<and>
           (unat (indexNumber sid) < length (serverList s) \<longrightarrow>
                entry (serverList s ! unat (indexNumber sid)) = None \<and>
                generationNumber sid =
                  nextGenerationNumber (serverList s ! unat (indexNumber sid)) \<and>
                length (serverList s') = length (serverList s)) \<and>
           (length (serverList s) \<le> unat (indexNumber sid) \<longrightarrow>
                generationNumber sid = nextGenerationNumber defaultPair \<and>
                length (serverList s') = unat (indexNumber sid) + 1 \<and>
                (\<forall>j. length (serverList s) \<le> j \<and> j < unat (indexNumber sid) \<longrightarrow>
                     serverList s' ! j = defaultPair)) \<and>
           serverList s' ! unat (indexNumber sid) =
             \<lparr>nextGenerationNumber = generationNumber sid + 1,
              entry = Some (Entry_construct sid [] {})\<rparr> \<and>
           (\<forall>j < length (serverList s). j \<noteq> unat (indexNumber sid) \<longrightarrow>
                serverList s' ! j = serverList s ! j) \<and>
           s'\<lparr>serverList := serverList s\<rparr> = s"
proof -
  define i where "i = firstFreeIndex_scan (serverList s) 1"
  have i1: "1 \<le> i" unfolding i_def by (rule scan_ge)
  have "i \<le> max 1 (length (serverList s))" unfolding i_def by (rule scan_le)
  then have ilt: "i < 2 ^ 32" using assms by auto
  then have ui: "unat (word_of_nat i :: 32 word) = i"
    by (simp add: unat_of_nat)
  have occ: "\<And>j. 1 \<le> j \<Longrightarrow> j < i \<Longrightarrow>
               j < length (serverList s) \<and> entry (serverList s ! j) \<noteq> None"
    unfolding i_def by (rule scan_occupied)
  have free: "i < length (serverList s) \<Longrightarrow> entry (serverList s ! i) = None"
    unfolding i_def by (rule scan_free)
  have ne0: "(word_of_nat i :: 32 word) \<noteq> 0"
    using ui i1 by (metis not_one_le_zero unat_0)
  have ffi: "firstFreeIndex s =
           Returns (word_of_nat i)
             (if i \<ge> length (serverList s)
              then s\<lparr>serverList := resize (i + 1) (serverList s)\<rparr> else s)"
    using firstFreeIndex_Returns[OF assms] unfolding i_def .
  show ?thesis
  proof (cases "i < length (serverList s)")
    case True
    show ?thesis
      using True i1 ui occ free ne0
      by (simp add: generateUniqueId_def ffi andThen_def Let_def nth_list_update)
  next
    case False
    show ?thesis
      using False i1 ui occ ne0
      by (auto simp add: generateUniqueId_def ffi andThen_def Let_def
          nth_list_update resize_def nth_append)
  qed
qed

theorem generateUniqueId_smallest_free_witness:
  "length (serverList exMixed) < 2 ^ 32 \<and>
   (\<exists>s'. generateUniqueId exMixed = Returns (exId 3 5) s' \<and>
         length (serverList s') = 5 \<and>
         nextGenerationNumber (serverList s' ! 3) = 6) \<and>
   length (serverList CoordinatorServerList_init) < 2 ^ 32 \<and>
   (\<exists>s'. generateUniqueId CoordinatorServerList_init = Returns (exId 1 1) s' \<and>
         length (serverList s') = 2)"
  using generateUniqueId_smallest_free [of exMixed]
    generateUniqueId_smallest_free [of CoordinatorServerList_init]
  by (simp add: exMixed_def exState_def exSlot_def exEntry_def exId_def
      Entry_construct_def CoordinatorServerList_init_def generateUniqueId_def
      firstFreeIndex_def firstFreeIndex_scan.simps andThen_def Let_def resize_def
      defaultPair_def ServerList_Clear_def)

section \<open>Serializing the list\<close>

lemma serialize_scan_server:
  "server (serialize_scan ps svcs protoBuf) =
     server protoBuf @
     map Entry_serialize
       (filter (\<lambda>e. (has (services e) MASTER_SERVICE \<and> has svcs MASTER_SERVICE) \<or>
                     (has (services e) BACKUP_SERVICE \<and> has svcs BACKUP_SERVICE))
          (List.map_filter entry ps))"
  by (induction ps svcs protoBuf rule: serialize_scan.induct)
     (auto simp: List.map_filter_simps split: option.splits)

text \<open>
  What the scan emits, for every mask and list: after the entries already in the
  message, the occupied slots in slot order, restricted to the entries that share
  MASTER or share BACKUP with the mask; the stamp is the current version and
  FULL_LIST.
\<close>

lemma serialize_emits:
  "serialize s protoBuf svcs =
     \<lparr>server = server protoBuf @
        map Entry_serialize
          (filter (\<lambda>e. services e \<inter> svcs \<inter> {MASTER_SERVICE, BACKUP_SERVICE} \<noteq> {})
             (List.map_filter entry (serverList s))),
      version_number = version s, list_type = Some FULL_LIST\<rparr>"
proof -
  have pred: "(\<lambda>e. (has (services e) MASTER_SERVICE \<and> has svcs MASTER_SERVICE) \<or>
             (has (services e) BACKUP_SERVICE \<and> has svcs BACKUP_SERVICE)) =
        (\<lambda>e. services e \<inter> svcs \<inter> {MASTER_SERVICE, BACKUP_SERVICE} \<noteq> {})"
    by (auto simp: has_def fun_eq_iff)
  have ser: "serialize s protoBuf svcs =
      \<lparr>server = server (serialize_scan (serverList s) svcs protoBuf),
       version_number = version s, list_type = Some FULL_LIST\<rparr>"
    by (cases "serialize_scan (serverList s) svcs protoBuf") (simp add: serialize_def)
  show ?thesis
    unfolding ser serialize_scan_server pred ..
qed

text \<open>
  C4. The claim has \<open>serialize(mask)\<close> include every occupied entry whose
  services intersect the mask. On the list whose only server offers just the
  membership service, with the mask made of the membership service, the entry's
  services do intersect the mask, and the message comes out with no entry at all
  (stamped with the version and FULL_LIST): the test in the scan looks at MASTER and
  BACKUP only.
\<close>

theorem serialize_membership_mask_empty:
  "List.map_filter entry (serverList exMembership) =
     [exEntry 1 1 {MEMBERSHIP_SERVICE} UP 0] \<and>
   services (exEntry 1 1 {MEMBERSHIP_SERVICE} UP 0) \<inter> {MEMBERSHIP_SERVICE} \<noteq> {} \<and>
   serialize exMembership ServerList_Clear {MEMBERSHIP_SERVICE} =
     \<lparr>server = [], version_number = version exMembership, list_type = Some FULL_LIST\<rparr>"
  by (simp add: exMembership_def exState_def exSlot_def exEntry_def exId_def
      Entry_construct_def CoordinatorServerList_init_def serialize_def has_def
      ServerList_Clear_def defaultPair_def)

section \<open>Packing and unpacking a hash table entry\<close>

lemma ptr_le_iff: "(p :: 64 word) \<le> 0x7FFFFFFFFFFF \<longleftrightarrow> p < 2 ^ 47"
  by (simp add: word_le_nat_alt word_less_nat_alt) arith

lemma hash_le_iff: "(h :: 64 word) \<le> 0xFFFF \<longleftrightarrow> h < 2 ^ 16"
  by (simp add: word_le_nat_alt word_less_nat_alt) arith

lemma fits_take_bit:
  fixes w :: "64 word"
  shows "n < 64 \<Longrightarrow> w < 2 ^ n \<longleftrightarrow> take_bit n w = w"
  using mask_eq_iff_w2p [of n w] by (simp add: take_bit_eq_mask word_size)

lemma fits_bits:
  fixes w :: "64 word"
  assumes "n < 64" "w < 2 ^ n" "bit w k"
  shows "k < n"
proof -
  have "take_bit n w = w" using assms(1,2) by (simp add: fits_take_bit)
  then have "bit (take_bit n w) k" using assms(3) by simp
  then show ?thesis by (simp add: bit_take_bit_iff)
qed

lemma ptr_fits: "(p :: 64 word) \<le> 0x7FFFFFFFFFFF \<longleftrightarrow> drop_bit 47 p = 0"
proof -
  have "p < 2 ^ 47 \<longleftrightarrow> take_bit 47 p = p" by (rule fits_take_bit) simp
  also have "\<dots> \<longleftrightarrow> drop_bit 47 p = 0" by (rule take_bit_eq_self_iff_drop_bit_eq_0)
  finally show ?thesis unfolding ptr_le_iff .
qed

lemma unpack_pack_hash:
  fixes h p :: "64 word"
  assumes "h < 2 ^ 16" "p < 2 ^ 47"
  shows "take_bit 16 (drop_bit 48 (push_bit 48 h OR push_bit 47 (if c then 1 else 0) OR p)) = h"
proof (rule bit_eqI)
  fix k
  show "bit (take_bit 16 (drop_bit 48 (push_bit 48 h OR push_bit 47 (if c then 1 else 0) OR p))) k
        = bit h k"
    using fits_bits [of 16 h k] fits_bits [of 47 p "48 + k"] assms
    by (auto simp: bit_simps)
qed

lemma unpack_pack_chain:
  fixes h p :: "64 word"
  assumes "p < 2 ^ 47"
  shows "bit (push_bit 48 h OR push_bit 47 (if c then 1 else 0) OR p) 47 = c"
  using fits_bits [of 47 p 47] assms by (auto simp: bit_simps)

lemma unpack_pack_ptr:
  fixes h p :: "64 word"
  assumes "p < 2 ^ 47"
  shows "take_bit 47 (push_bit 48 h OR push_bit 47 (if c then 1 else 0) OR p) = p"
proof (rule bit_eqI)
  fix k
  show "bit (take_bit 47 (push_bit 48 h OR push_bit 47 (if c then 1 else 0) OR p)) k = bit p k"
    using fits_bits [of 47 p k] assms by (auto simp: bit_simps)
qed

text \<open>
  C9. For a secondary hash of at most 0xFFFF, either chain flag and a pointer of at
  most 0x7FFFFFFFFFFF, packing succeeds and unpacking the packed word gives back
  exactly the hash, the flag and the pointer; for every pointer above
  0x7FFFFFFFFFFF packing fails with OutOfRange.
\<close>

theorem pack_unpack:
  "(h \<le> 0xFFFF \<and> p \<le> 0x7FFFFFFFFFFF \<longrightarrow>
      (\<exists>v. pack h c p = Inr v \<and> unpack v = \<lparr>u_hash = h, u_chain = c, u_ptr = p\<rparr>)) \<and>
   (\<not> p \<le> 0x7FFFFFFFFFFF \<longrightarrow> pack h c p = Inl OutOfRange)"
proof (intro conjI impI)
  assume a: "h \<le> 0xFFFF \<and> p \<le> 0x7FFFFFFFFFFF"
  then have h: "h < 2 ^ 16" and p: "p < 2 ^ 47"
    by (simp_all only: hash_le_iff ptr_le_iff)
  have "drop_bit 47 p = 0" using a by (simp only: ptr_fits)
  then have "pack h c p = Inr (push_bit 48 h OR push_bit 47 (if c then 1 else 0) OR p)"
    by (simp add: pack_def)
  moreover have "unpack (push_bit 48 h OR push_bit 47 (if c then 1 else 0) OR p)
      = \<lparr>u_hash = h, u_chain = c, u_ptr = p\<rparr>"
    unfolding unpack_def
    by (simp only: unpack_pack_hash [OF h p] unpack_pack_chain [OF p] unpack_pack_ptr [OF p])
  ultimately show "\<exists>v. pack h c p = Inr v \<and> unpack v = \<lparr>u_hash = h, u_chain = c, u_ptr = p\<rparr>"
    by blast
next
  assume "\<not> p \<le> 0x7FFFFFFFFFFF"
  then have "drop_bit 47 p \<noteq> 0" using ptr_fits [of p] by blast
  then show "pack h c p = Inl OutOfRange" by (simp add: pack_def)
qed

theorem pack_unpack_witness:
  "(0xa257 :: 64 word) \<le> 0xFFFF \<and> (0x3cdeadbeef98 :: 64 word) \<le> 0x7FFFFFFFFFFF \<and>
   pack 0xa257 False 0x3cdeadbeef98 = Inr 0xa2573cdeadbeef98 \<and>
   unpack 0xa2573cdeadbeef98 = \<lparr>u_hash = 0xa257, u_chain = False, u_ptr = 0x3cdeadbeef98\<rparr> \<and>
   \<not> (0xffffffffffff :: 64 word) \<le> 0x7FFFFFFFFFFF \<and>
   pack 0 False 0xffffffffffff = Inl OutOfRange"
  using pack_unpack [of "0xa257" "0x3cdeadbeef98" False] pack_unpack [of "0xffffffffffff" 0 False]
  by (simp add: pack_def unpack_def)

section \<open>Replication groups\<close>

lemma slotsConsistent_iff:
  "slotsConsistent s \<longleftrightarrow>
     (\<forall>i < length (serverList s).
        case entry (serverList s ! i) of
          None \<Rightarrow> True
        | Some e \<Rightarrow> unat (indexNumber (serverId e)) = i)"
  by (auto simp add: slotsConsistent_def)

lemma slotsConsistent_index:
  assumes "slotsConsistent s" "i < length (serverList s)" "entry (serverList s ! i) = Some e"
  shows "unat (indexNumber (serverId e)) = i"
proof -
  from assms(1,2) have "case entry (serverList s ! i) of None \<Rightarrow> True
      | Some e \<Rightarrow> unat (indexNumber (serverId e)) = i"
    unfolding slotsConsistent_iff by blast
  with assms(3) show ?thesis by simp
qed

lemma slotsConsistent_iget:
  assumes "slotsConsistent s" "i < length (serverList s)" "entry (serverList s ! i) = Some e"
  shows "iget s (serverId e) = Some e"
  unfolding iget_Some_iff slotsConsistent_index [OF assms] using assms(2,3) by simp

lemma setReplicationId_effect:
  assumes "iget s b = Some e" "status e = UP"
  shows "setReplicationId s b rid =
           Returns ()
             (s\<lparr>serverList := (serverList s)[unat (indexNumber b) :=
                   (serverList s ! unat (indexNumber b))\<lparr>entry := Some (e\<lparr>replicationId := rid\<rparr>)\<rparr>],
                update := (update s)\<lparr>server := server (update s) @
                   [Entry_serialize (e\<lparr>replicationId := rid\<rparr>)]\<rparr>\<rparr>)"
  using assms
  by (auto simp: setReplicationId_def getReferenceFromServerId_def andThen_def Let_def
      iget_Some_iff setEntry_def add_server_def)

lemma setRid_step:
  assumes c: "slotsConsistent s" and g: "iget s b = Some e"
  shows "map (setRid rid G) ((serverList s)[unat (indexNumber b) :=
            (serverList s ! unat (indexNumber b))\<lparr>entry := Some (e\<lparr>replicationId := rid\<rparr>)\<rparr>])
         = map (setRid rid (insert b G)) (serverList s)"
proof (rule nth_equalityI)
  show "length (map (setRid rid G) ((serverList s)[unat (indexNumber b) :=
            (serverList s ! unat (indexNumber b))\<lparr>entry := Some (e\<lparr>replicationId := rid\<rparr>)\<rparr>]))
        = length (map (setRid rid (insert b G)) (serverList s))" by simp
next
  fix j
  assume "j < length (map (setRid rid G) ((serverList s)[unat (indexNumber b) :=
            (serverList s ! unat (indexNumber b))\<lparr>entry := Some (e\<lparr>replicationId := rid\<rparr>)\<rparr>]))"
  then have j: "j < length (serverList s)" by simp
  from g have ib: "unat (indexNumber b) < length (serverList s)"
    and eb: "entry (serverList s ! unat (indexNumber b)) = Some e" and sb: "serverId e = b"
    by (simp_all add: iget_Some_iff)
  show "map (setRid rid G) ((serverList s)[unat (indexNumber b) :=
            (serverList s ! unat (indexNumber b))\<lparr>entry := Some (e\<lparr>replicationId := rid\<rparr>)\<rparr>]) ! j
        = map (setRid rid (insert b G)) (serverList s) ! j"
  proof (cases "j = unat (indexNumber b)")
    case True
    then show ?thesis using j eb sb by (simp add: setRid_def)
  next
    case False
    have "\<And>e'. entry (serverList s ! j) = Some e' \<Longrightarrow> serverId e' \<noteq> b"
      using slotsConsistent_index [OF c j] False by auto
    then show ?thesis using j False by (auto simp: setRid_def split: option.splits)
  qed
qed

lemma iget_setOne:
  assumes "iget s b = Some e" "serverId e1 = b"
  shows "iget (setOne s b e1 U) b' = (if b' = b then Some e1 else iget s b')"
proof (cases "b' = b")
  case True
  from assms have ib: "unat (indexNumber b) < length (serverList s)"
    by (simp add: iget_Some_iff)
  then show ?thesis using True assms(2) by (simp add: iget_def setOne_def Let_def)
next
  case False
  from assms have ib: "unat (indexNumber b) < length (serverList s)"
    and eb: "entry (serverList s ! unat (indexNumber b)) = Some e" and sb: "serverId e = b"
    by (simp_all add: iget_Some_iff)
  show ?thesis
  proof (cases "unat (indexNumber b') = unat (indexNumber b)")
    case True
    then show ?thesis using False ib eb sb assms(2)
      by (simp add: iget_def setOne_def Let_def)
  next
    case F2: False
    then show ?thesis using False
      by (simp add: iget_def setOne_def Let_def)
  qed
qed

lemma slotsConsistent_setOne:
  assumes "slotsConsistent s" "iget s b = Some e" "serverId e1 = b"
  shows "slotsConsistent (setOne s b e1 U)"
  unfolding slotsConsistent_iff
proof (intro allI impI)
  fix i assume "i < length (serverList (setOne s b e1 U))"
  then have i: "i < length (serverList s)" by (simp add: setOne_def)
  show "case entry (serverList (setOne s b e1 U) ! i) of None \<Rightarrow> True
        | Some e \<Rightarrow> unat (indexNumber (serverId e)) = i"
  proof (cases "i = unat (indexNumber b)")
    case True
    then show ?thesis using i assms(3) by (simp add: setOne_def)
  next
    case False
    then have "serverList (setOne s b e1 U) ! i = serverList s ! i"
      by (simp add: setOne_def)
    then show ?thesis using assms(1) i unfolding slotsConsistent_iff by simp
  qed
qed

lemma recordOf_setOne:
  assumes "iget s b = Some e"
  shows "recordOf (setOne s b (e\<lparr>replicationId := rid\<rparr>) U) rid b' = recordOf s rid b'"
  using assms iget_Some_iff [of s b e]
  by (simp add: recordOf_def iget_setOne [OF assms])

lemma assign_effect:
  assumes "slotsConsistent s" "\<forall>b\<in>set ids. \<exists>e. iget s b = Some e \<and> status e = UP"
  shows "assignReplicationGroup s rid ids =
           Returns True
             (s\<lparr>serverList := map (setRid rid (set ids)) (serverList s),
                update := (update s)\<lparr>server := server (update s) @ map (recordOf s rid) ids\<rparr>\<rparr>)"
  using assms
proof (induction ids arbitrary: s)
  case Nil
  have "map (setRid rid {}) (serverList s) = serverList s"
    by (rule map_idI) (simp add: setRid_def split: option.splits)
  then show ?case by simp
next
  case (Cons b ids)
  from Cons.prems(2) obtain e where g: "iget s b = Some e" and up: "status e = UP" by auto
  define U where "U = (update s)\<lparr>server := server (update s) @
                   [Entry_serialize (e\<lparr>replicationId := rid\<rparr>)]\<rparr>"
  define s1 where "s1 = setOne s b (e\<lparr>replicationId := rid\<rparr>) U"
  have sid: "serverId (e\<lparr>replicationId := rid\<rparr>) = b" using g by (simp add: iget_Some_iff)
  have step: "setReplicationId s b rid = Returns () s1"
    unfolding s1_def U_def setOne_def by (rule setReplicationId_effect [OF g up])
  have c1: "slotsConsistent s1"
    unfolding s1_def by (rule slotsConsistent_setOne [OF Cons.prems(1) g sid])
  have p1: "\<forall>b'\<in>set ids. \<exists>e'. iget s1 b' = Some e' \<and> status e' = UP"
    using Cons.prems(2) up unfolding s1_def by (auto simp: iget_setOne [OF g sid])
  have ih: "assignReplicationGroup s1 rid ids =
           Returns True
             (s1\<lparr>serverList := map (setRid rid (set ids)) (serverList s1),
                update := (update s1)\<lparr>server := server (update s1) @ map (recordOf s1 rid) ids\<rparr>\<rparr>)"
    by (rule Cons.IH [OF c1 p1])
  have recs: "map (recordOf s1 rid) ids = map (recordOf s rid) ids"
    unfolding s1_def by (simp add: recordOf_setOne [OF g])
  have lst: "map (setRid rid (set ids)) (serverList s1) =
             map (setRid rid (insert b (set ids))) (serverList s)"
    unfolding s1_def setOne_def using setRid_step [OF Cons.prems(1) g] by simp
  have rb: "recordOf s rid b = Entry_serialize (e\<lparr>replicationId := rid\<rparr>)"
    using g by (simp add: recordOf_def)
  show ?case
    using g step ih
    by (simp add: andThen_def recs lst rb) (simp add: s1_def setOne_def U_def)
qed

lemma entry_setRid:
  "entry (setRid rid G p) =
     map_option (\<lambda>e. if serverId e \<in> G then e\<lparr>replicationId := rid\<rparr> else e) (entry p)"
  by (simp add: setRid_def split: option.splits)

lemma iget_assigned:
  "iget (assigned s rid ids recs) b =
     map_option (\<lambda>e. if b \<in> set ids then e\<lparr>replicationId := rid\<rparr> else e) (iget s b)"
proof (cases "unat (indexNumber b) < length (serverList s)")
  case False
  then show ?thesis by (simp add: iget_def assigned_def)
next
  case True
  show ?thesis
  proof (cases "entry (serverList s ! unat (indexNumber b))")
    case None
    then show ?thesis using True by (simp add: iget_def assigned_def entry_setRid)
  next
    case (Some e)
    then show ?thesis using True by (simp add: iget_def assigned_def entry_setRid)
  qed
qed

lemma slotsConsistent_assigned:
  assumes "slotsConsistent s"
  shows "slotsConsistent (assigned s rid ids recs)"
  unfolding slotsConsistent_iff
proof (intro allI impI)
  fix i assume "i < length (serverList (assigned s rid ids recs))"
  then have i: "i < length (serverList s)" by (simp add: assigned_def)
  show "case entry (serverList (assigned s rid ids recs) ! i) of None \<Rightarrow> True
        | Some e \<Rightarrow> unat (indexNumber (serverId e)) = i"
  proof (cases "entry (serverList s ! i)")
    case None
    then show ?thesis using i by (simp add: assigned_def entry_setRid)
  next
    case (Some e)
    have "unat (indexNumber (serverId e)) = i"
      by (rule slotsConsistent_index [OF assms i Some])
    then show ?thesis using i Some by (simp add: assigned_def entry_setRid)
  qed
qed

lemma recordOf_assigned: "recordOf (assigned s rid ids recs) rid b = recordOf s rid b"
  by (cases "iget s b") (simp_all add: recordOf_def iget_assigned)

lemma setRid_setRid: "setRid rid G2 (setRid rid G1 p) = setRid rid (G1 \<union> G2) p"
  by (auto simp: setRid_def split: option.splits)

lemma setRid_empty: "map (setRid rid {}) xs = xs"
  by (rule map_idI) (simp add: setRid_def split: option.splits)

lemma assigned_assigned:
  "assigned (assigned s rid ids1 recs1) rid ids2 recs2 =
   assigned s rid (ids1 @ ids2) (recs1 @ recs2)"
  by (simp add: assigned_def setRid_setRid o_def)

lemma assigned_nothing: "assigned s rid [] [] = s"
  by (simp add: assigned_def setRid_empty)

lemma assigned_cong_set:
  "set ids1 = set ids2 \<Longrightarrow> assigned s rid ids1 recs = assigned s rid ids2 recs"
  by (simp add: assigned_def)

lemma assign_effect':
  assumes "slotsConsistent s" "\<forall>b\<in>set ids. \<exists>e. iget s b = Some e \<and> status e = UP"
  shows "assignReplicationGroup s rid ids =
           Returns True (assigned s rid ids (map (recordOf s rid) ids))"
  unfolding assigned_def by (rule assign_effect [OF assms])

lemma groupMembers_step:
  "i < k \<Longrightarrow> groupMembers s gid i k =
     (if matchAt s gid i then [idAt s i] else []) @ groupMembers s gid (Suc i) k"
  by (simp add: groupMembers_def upt_conv_Cons)

lemma groupMembers_index:
  assumes "slotsConsistent s" "k \<le> length (serverList s)" "b \<in> set (groupMembers s gid i k)"
  shows "i \<le> unat (indexNumber b) \<and> unat (indexNumber b) < k \<and>
         (\<exists>e. iget s b = Some e \<and> status e = UP)"
proof -
  from assms(3) obtain j where j: "i \<le> j" "j < k" "matchAt s gid j" "b = idAt s j"
    by (auto simp: groupMembers_def)
  from j(3) obtain e where e: "entry (serverList s ! j) = Some e" "isBackup e"
    by (auto simp: matchAt_def split: option.splits)
  have jl: "j < length (serverList s)" using j(2) assms(2) by simp
  have b: "b = serverId e" using j(4) e(1) by (simp add: idAt_def)
  have "unat (indexNumber b) = j" unfolding b by (rule slotsConsistent_index [OF assms(1) jl e(1)])
  moreover have "iget s b = Some e" unfolding b by (rule slotsConsistent_iget [OF assms(1) jl e(1)])
  ultimately show ?thesis using j(1,2) e(2) by (simp add: isBackup_def)
qed

lemma slot_assigned_later:
  assumes c: "slotsConsistent s" and j: "j < length (serverList s)"
    and low: "\<forall>b\<in>set ids. unat (indexNumber b) < j"
  shows "serverList (assigned s rid ids recs) ! j = serverList s ! j"
proof (cases "entry (serverList s ! j)")
  case None
  then show ?thesis using j by (simp add: assigned_def setRid_def)
next
  case (Some e)
  have "unat (indexNumber (serverId e)) = j" by (rule slotsConsistent_index [OF c j Some])
  then have "serverId e \<notin> set ids" using low by auto
  then show ?thesis using j Some by (simp add: assigned_def setRid_def)
qed

lemma groupMembers_assigned:
  assumes c: "slotsConsistent s" and k: "k \<le> length (serverList s)"
    and low: "\<forall>b\<in>set ids. unat (indexNumber b) < i"
  shows "groupMembers (assigned s rid ids recs) gid i k = groupMembers s gid i k"
proof -
  have "\<And>j. i \<le> j \<Longrightarrow> j < k \<Longrightarrow> serverList (assigned s rid ids recs) ! j = serverList s ! j"
  proof -
    fix j assume "i \<le> j" "j < k"
    then have "j < length (serverList s)" "\<forall>b\<in>set ids. unat (indexNumber b) < j"
      using k low by auto
    then show "serverList (assigned s rid ids recs) ! j = serverList s ! j"
      by (rule slot_assigned_later [OF c])
  qed
  then have "\<And>j. j \<in> set [i..<k] \<Longrightarrow>
       matchAt (assigned s rid ids recs) gid j = matchAt s gid j \<and>
       idAt (assigned s rid ids recs) j = idAt s j"
    by (simp add: matchAt_def idAt_def)
  then have md: "\<And>j. j \<in> set [i..<k] \<Longrightarrow>
       matchAt (assigned s rid ids recs) gid j = matchAt s gid j"
    and d: "\<And>j. j \<in> set [i..<k] \<Longrightarrow> idAt (assigned s rid ids recs) j = idAt s j"
    by blast+
  have m: "filter (matchAt (assigned s rid ids recs) gid) [i..<k] = filter (matchAt s gid) [i..<k]"
    by (rule filter_cong [OF refl]) (rule md)
  show ?thesis
    unfolding groupMembers_def m
    by (rule map_cong [OF refl]) (simp add: d)
qed

declare removeReplicationGroup_scan.simps [simp del]

lemma assigned_absorb:
  assumes c: "slotsConsistent s"
    and z: "\<forall>b\<in>set ids0. \<forall>e. iget s b = Some e \<longrightarrow> replicationId e = rid"
  shows "assigned s rid (ids0 @ ids) recs = assigned s rid ids recs"
proof -
  have "map (setRid rid (set (ids0 @ ids))) (serverList s) = map (setRid rid (set ids)) (serverList s)"
  proof (rule nth_equalityI)
    show "length (map (setRid rid (set (ids0 @ ids))) (serverList s)) =
          length (map (setRid rid (set ids)) (serverList s))" by simp
  next
    fix j assume "j < length (map (setRid rid (set (ids0 @ ids))) (serverList s))"
    then have j: "j < length (serverList s)" by simp
    have "setRid rid (set (ids0 @ ids)) (serverList s ! j) = setRid rid (set ids) (serverList s ! j)"
    proof (cases "entry (serverList s ! j)")
      case None
      then show ?thesis by (simp add: setRid_def)
    next
      case (Some e)
      show ?thesis
      proof (cases "serverId e \<in> set ids0")
        case True
        have "iget s (serverId e) = Some e" by (rule slotsConsistent_iget [OF c j Some])
        with z True have "replicationId e = rid" by blast
        then have "e\<lparr>replicationId := rid\<rparr> = e" by simp
        then show ?thesis using Some True
          by (simp add: setRid_def)
      next
        case False
        then show ?thesis using Some by (simp add: setRid_def)
      qed
    qed
    then show "map (setRid rid (set (ids0 @ ids))) (serverList s) ! j =
               map (setRid rid (set ids)) (serverList s) ! j"
      using j by simp
  qed
  then show ?thesis by (simp add: assigned_def)
qed

lemma remove_scan_effect:
  assumes "slotsConsistent s" "i \<le> length (serverList s)"
    and "\<forall>b\<in>set grp. (\<exists>e. iget s b = Some e \<and> status e = UP \<and> replicationId e = 0) \<and>
                       unat (indexNumber b) < i"
  shows "removeReplicationGroup_scan s gid i grp =
           Returns ()
             (assigned s 0 (groupMembers s gid i (length (serverList s)))
                (concat (map (\<lambda>k. map (recordOf s 0) (grp @ groupMembers s gid i (Suc k)))
                   [i..<length (serverList s)])))"
  using assms
proof (induction "length (serverList s) - i" arbitrary: s i grp)
  case 0
  then have "i = length (serverList s)" by simp
  then show ?case
    by (subst removeReplicationGroup_scan.simps) (simp add: groupMembers_def assigned_nothing)
next
  case (Suc m)
  define n where "n = length (serverList s)"
  have i: "i < n" using Suc.hyps(2) by (simp add: n_def)
  define new where "new = (if matchAt s gid i then [idAt s i] else [])"
  define grp1 where "grp1 = grp @ new"
  have grp1_eq: "(case entry (serverList s ! i) of None \<Rightarrow> grp
          | Some e \<Rightarrow> if isBackup e \<and> replicationId e = gid then grp @ [serverId e] else grp) = grp1"
    by (simp add: grp1_def new_def matchAt_def idAt_def split: option.splits)
  have gm: "\<And>k. i < k \<Longrightarrow> groupMembers s gid i k = new @ groupMembers s gid (Suc i) k"
    unfolding new_def by (rule groupMembers_step)
  have gm_i: "groupMembers s gid i (Suc i) = new"
    using gm [of "Suc i"] by (simp add: groupMembers_def)
  have upt: "[i..<n] = i # [Suc i..<n]" using i by (simp add: upt_conv_Cons)
  have recs_eq: "concat (map (\<lambda>k. map (recordOf s 0) (grp @ groupMembers s gid i (Suc k))) [i..<n])
      = map (recordOf s 0) grp1 @
        concat (map (\<lambda>k. map (recordOf s 0) (grp1 @ groupMembers s gid (Suc i) (Suc k))) [Suc i..<n])"
  proof -
    have tail: "map (\<lambda>k. map (recordOf s 0) (grp @ groupMembers s gid i (Suc k))) [Suc i..<n]
        = map (\<lambda>k. map (recordOf s 0) (grp1 @ groupMembers s gid (Suc i) (Suc k))) [Suc i..<n]"
      by (rule map_cong [OF refl]) (simp add: gm grp1_def)
    show ?thesis
      unfolding upt by (simp only: list.map concat.simps tail gm_i grp1_def)
  qed
  show ?case
  proof (cases "grp1 = []")
    case True
    then have e: "grp = []" "new = []" by (simp_all add: grp1_def)
    have step: "removeReplicationGroup_scan s gid i grp = removeReplicationGroup_scan s gid (Suc i) []"
      using i True by (subst removeReplicationGroup_scan.simps) (simp add: grp1_eq n_def)
    have ih: "removeReplicationGroup_scan s gid (Suc i) [] =
           Returns ()
             (assigned s 0 (groupMembers s gid (Suc i) (length (serverList s)))
                (concat (map (\<lambda>k. map (recordOf s 0) ([] @ groupMembers s gid (Suc i) (Suc k)))
                   [Suc i..<length (serverList s)])))"
      using Suc.hyps(2) i Suc.prems(1) by (intro Suc.hyps(1)) (simp_all add: n_def)
    show ?thesis
      unfolding step ih n_def [symmetric] recs_eq
      using i by (simp add: gm e True)
  next
    case False
    have newprop: "\<forall>b\<in>set new. (\<exists>e. iget s b = Some e \<and> status e = UP) \<and> unat (indexNumber b) = i"
    proof
      fix b assume "b \<in> set new"
      then have m: "matchAt s gid i" and b: "b = idAt s i"
        by (simp_all add: new_def split: if_splits)
      from m obtain e where e: "entry (serverList s ! i) = Some e" "isBackup e"
        by (auto simp: matchAt_def split: option.splits)
      have il: "i < length (serverList s)" using i by (simp add: n_def)
      have be: "b = serverId e" using b e(1) by (simp add: idAt_def)
      have "iget s b = Some e" unfolding be by (rule slotsConsistent_iget [OF Suc.prems(1) il e(1)])
      moreover have "unat (indexNumber b) = i"
        unfolding be by (rule slotsConsistent_index [OF Suc.prems(1) il e(1)])
      ultimately show "(\<exists>e. iget s b = Some e \<and> status e = UP) \<and> unat (indexNumber b) = i"
        using e(2) by (simp add: isBackup_def)
    qed
    have all1: "\<forall>b\<in>set grp1. \<exists>e. iget s b = Some e \<and> status e = UP"
      using Suc.prems(3) newprop by (auto simp: grp1_def)
    have low1: "\<forall>b\<in>set grp1. unat (indexNumber b) < Suc i"
      using Suc.prems(3) newprop by (auto simp: grp1_def less_Suc_eq)
    define s1 where "s1 = assigned s 0 grp1 (map (recordOf s 0) grp1)"
    have asg: "assignReplicationGroup s 0 grp1 = Returns True s1"
      unfolding s1_def by (rule assign_effect' [OF Suc.prems(1) all1])
    have len1: "length (serverList s1) = n" by (simp add: s1_def assigned_def n_def)
    have step: "removeReplicationGroup_scan s gid i grp = removeReplicationGroup_scan s1 gid (Suc i) grp1"
      using i False by (subst removeReplicationGroup_scan.simps) (simp add: grp1_eq n_def asg)
    have c1: "slotsConsistent s1" unfolding s1_def by (rule slotsConsistent_assigned [OF Suc.prems(1)])
    have p1: "\<forall>b\<in>set grp1. (\<exists>e. iget s1 b = Some e \<and> status e = UP \<and> replicationId e = 0) \<and>
                       unat (indexNumber b) < Suc i"
      using all1 low1 by (auto simp: s1_def iget_assigned)
    have ih: "removeReplicationGroup_scan s1 gid (Suc i) grp1 =
           Returns ()
             (assigned s1 0 (groupMembers s1 gid (Suc i) (length (serverList s1)))
                (concat (map (\<lambda>k. map (recordOf s1 0) (grp1 @ groupMembers s1 gid (Suc i) (Suc k)))
                   [Suc i..<length (serverList s1)])))"
      using Suc.hyps(2) i c1 p1 by (intro Suc.hyps(1)) (simp_all add: len1 n_def)
    have gm1: "\<And>k. k \<le> n \<Longrightarrow> groupMembers s1 gid (Suc i) k = groupMembers s gid (Suc i) k"
      unfolding s1_def n_def by (rule groupMembers_assigned [OF Suc.prems(1) _ low1])
    have r1: "recordOf s1 0 = recordOf s 0"
      unfolding s1_def by (rule ext) (rule recordOf_assigned)
    have recs1: "map (\<lambda>k. map (recordOf s1 0) (grp1 @ groupMembers s1 gid (Suc i) (Suc k))) [Suc i..<n]
        = map (\<lambda>k. map (recordOf s 0) (grp1 @ groupMembers s gid (Suc i) (Suc k))) [Suc i..<n]"
      by (rule map_cong [OF refl]) (simp add: gm1 r1)
    have zero: "\<forall>b\<in>set grp. \<forall>e. iget s b = Some e \<longrightarrow> replicationId e = 0"
      using Suc.prems(3) by auto
    have "assigned s1 0 (groupMembers s1 gid (Suc i) n)
            (concat (map (\<lambda>k. map (recordOf s 0) (grp1 @ groupMembers s gid (Suc i) (Suc k))) [Suc i..<n]))
        = assigned s1 0 (groupMembers s gid (Suc i) n)
            (concat (map (\<lambda>k. map (recordOf s 0) (grp1 @ groupMembers s gid (Suc i) (Suc k))) [Suc i..<n]))"
      by (simp only: gm1 [OF order_refl])
    also have "\<dots> = assigned s 0 (grp1 @ groupMembers s gid (Suc i) n)
            (map (recordOf s 0) grp1 @
             concat (map (\<lambda>k. map (recordOf s 0) (grp1 @ groupMembers s gid (Suc i) (Suc k))) [Suc i..<n]))"
      unfolding s1_def by (rule assigned_assigned)
    also have "\<dots> = assigned s 0 (grp @ (new @ groupMembers s gid (Suc i) n))
            (map (recordOf s 0) grp1 @
             concat (map (\<lambda>k. map (recordOf s 0) (grp1 @ groupMembers s gid (Suc i) (Suc k))) [Suc i..<n]))"
      by (simp only: grp1_def append_assoc)
    also have "\<dots> = assigned s 0 (new @ groupMembers s gid (Suc i) n)
            (map (recordOf s 0) grp1 @
             concat (map (\<lambda>k. map (recordOf s 0) (grp1 @ groupMembers s gid (Suc i) (Suc k))) [Suc i..<n]))"
      by (rule assigned_absorb [OF Suc.prems(1) zero])
    finally show ?thesis
      unfolding step ih len1 recs1 n_def [symmetric] recs_eq
      using i by (simp add: gm)
  qed
qed




section \<open>Forming replication groups\<close>

declare createGroups.simps [simp del]

lemma popBackups_eq:
  "k \<le> length fb \<Longrightarrow>
     popBackups k fb grp = (take (length fb - k) fb, grp @ take k (rev fb))"
proof (induction k arbitrary: fb grp)
  case 0
  then show ?case by simp
next
  case (Suc k)
  then have ne: "fb \<noteq> []" by auto
  then have r: "rev fb = last fb # rev (butlast fb)"
    by (metis append_butlast_last_id rev.simps(2) rev_rev_ident rev_swap)
  have "popBackups (Suc k) fb grp = popBackups k (butlast fb) (grp @ [last fb])" by simp
  also have "\<dots> = (take (length (butlast fb) - k) (butlast fb),
                     (grp @ [last fb]) @ take k (rev (butlast fb)))"
    using Suc.prems by (intro Suc.IH) simp
  also have "take (length (butlast fb) - k) (butlast fb) = take (length fb - Suc k) fb"
    by (simp add: butlast_conv_take)
  also have "(grp @ [last fb]) @ take k (rev (butlast fb)) = grp @ take (Suc k) (rev fb)"
    by (simp add: r)
  finally show ?case .
qed

lemma popBackups_rev3:
  "popBackups numReplicas (rev (a # b # c # rest)) [] = (rev rest, [a, b, c])"
  by (simp add: popBackups_eq numReplicas_def)

lemma iget_cong_serverList: "serverList s = serverList t \<Longrightarrow> iget s b = iget t b"
  by (simp add: iget_def Let_def)

lemma slotsConsistent_cong_serverList:
  "serverList s = serverList t \<Longrightarrow> slotsConsistent s = slotsConsistent t"
  by (simp add: slotsConsistent_def)

lemma createGroups_eq_groupsAssigned:
  assumes "slotsConsistent s" "\<forall>b\<in>set R. \<exists>e. iget s b = Some e \<and> status e = UP"
  shows "createGroups s (rev R) = Returns () (groupsAssigned s R)"
  using assms
proof (induction s R rule: groupsAssigned.induct)
  case (1 s a b c rest)
  define rid where "rid = nextReplicationId s"
  define s1 where "s1 = assigned s rid [a, b, c] (map (recordOf s rid) [a, b, c])"
  define s2 where "s2 = s1\<lparr>nextReplicationId := nextReplicationId s + 1\<rparr>"
  have up3: "\<forall>x\<in>set [a, b, c]. \<exists>e. iget s x = Some e \<and> status e = UP"
    using "1.prems"(2) by simp
  have asg: "assignReplicationGroup s rid [a, b, c] = Returns True s1"
    unfolding s1_def by (rule assign_effect' [OF "1.prems"(1) up3])
  have n1: "nextReplicationId s1 = nextReplicationId s" by (simp add: s1_def assigned_def)
  have step: "createGroups s (rev (a # b # c # rest)) = createGroups s2 (rev rest)"
    apply (subst createGroups.simps)
    apply (simp only: popBackups_rev3 fst_conv snd_conv rid_def [symmetric] asg)
    apply (simp add: numReplicas_def s2_def n1)
    done
  have c2: "slotsConsistent s2"
    using slotsConsistent_assigned [OF "1.prems"(1), of rid "[a, b, c]" "map (recordOf s rid) [a, b, c]"]
    by (simp add: s2_def s1_def slotsConsistent_def)
  have g2: "\<And>x. iget s2 x = iget s1 x" by (rule iget_cong_serverList) (simp add: s2_def)
  have p2: "\<forall>x\<in>set rest. \<exists>e. iget s2 x = Some e \<and> status e = UP"
  proof
    fix x assume "x \<in> set rest"
    with "1.prems"(2) obtain e where "iget s x = Some e" "status e = UP" by auto
    then show "\<exists>e. iget s2 x = Some e \<and> status e = UP"
      by (simp add: g2 s1_def iget_assigned)
  qed
  have "createGroups s2 (rev rest) = Returns () (groupsAssigned s2 rest)"
    using c2 p2 unfolding s2_def s1_def rid_def by (rule "1.IH")
  then show ?case
    unfolding step by (simp add: s2_def s1_def rid_def)
qed ((subst createGroups.simps, simp add: numReplicas_def)+)

lemma groupIds_keys: "fst ` set (groupIds rid R) \<subseteq> set R"
  by (induction rid R rule: groupIds.induct) auto

lemma div3_add: "(3 + n) div 3 = Suc (n div 3)"
  by presburger

lemma map_option_ident: "map_option (\<lambda>e. e) v = v"
  by (cases v) simp_all

lemma length_groupIds: "length (groupIds rid R) = 3 * (length R div 3)"
  by (induction rid R rule: groupIds.induct) (auto simp: div3_add)

lemma recordOf_assigned_any: "recordOf (assigned s rid ids recs) r b = recordOf s r b"
  by (cases "iget s b") (simp_all add: recordOf_def iget_assigned)

lemma recordOf_cong_serverList: "serverList s = serverList t \<Longrightarrow> recordOf s r b = recordOf t r b"
  using iget_cong_serverList [of s t b] by (simp add: recordOf_def)

lemma groupsAssigned_next:
  "nextReplicationId (groupsAssigned s R) = nextReplicationId s + of_nat (length R div 3)"
  by (induction s R rule: groupsAssigned.induct) (simp_all add: div3_add)

lemma groupsAssigned_frame:
  "(groupsAssigned s R)\<lparr>serverList := serverList s, update := update s,
      nextReplicationId := nextReplicationId s\<rparr> = s"
proof (induction s R rule: groupsAssigned.induct)
  case (1 s a b c rest)
  define s2 where "s2 = (assigned s (nextReplicationId s) [a, b, c]
           (map (recordOf s (nextReplicationId s)) [a, b, c]))
          \<lparr>nextReplicationId := nextReplicationId s + 1\<rparr>"
  have ih: "(groupsAssigned s2 rest)\<lparr>serverList := serverList s2, update := update s2,
      nextReplicationId := nextReplicationId s2\<rparr> = s2"
    unfolding s2_def by (rule "1.IH")
  have "(groupsAssigned s2 rest)\<lparr>serverList := serverList s, update := update s,
      nextReplicationId := nextReplicationId s\<rparr> =
      ((groupsAssigned s2 rest)\<lparr>serverList := serverList s2, update := update s2,
      nextReplicationId := nextReplicationId s2\<rparr>)\<lparr>serverList := serverList s, update := update s,
      nextReplicationId := nextReplicationId s\<rparr>"
    by simp
  also have "\<dots> = s2\<lparr>serverList := serverList s, update := update s,
      nextReplicationId := nextReplicationId s\<rparr>"
    by (simp only: ih)
  also have "\<dots> = s" by (simp add: s2_def assigned_def)
  finally show ?case by (simp add: s2_def)
qed simp_all

lemma groupsAssigned_records:
  "server (update (groupsAssigned s R)) =
     server (update s) @ map (\<lambda>(b, r). recordOf s r b) (groupIds (nextReplicationId s) R)"
proof (induction s R rule: groupsAssigned.induct)
  case (1 s a b c rest)
  define rid where "rid = nextReplicationId s"
  define s1 where "s1 = assigned s rid [a, b, c] (map (recordOf s rid) [a, b, c])"
  define s2 where "s2 = s1\<lparr>nextReplicationId := rid + 1\<rparr>"
  have ih: "server (update (groupsAssigned s2 rest)) =
     server (update s2) @ map (\<lambda>(b, r). recordOf s2 r b) (groupIds (nextReplicationId s2) rest)"
    unfolding s2_def s1_def rid_def by (rule "1.IH")
  have r2: "\<And>r x. recordOf s2 r x = recordOf s r x"
  proof -
    fix r x
    have "recordOf s2 r x = recordOf s1 r x"
      by (rule recordOf_cong_serverList) (simp add: s2_def)
    then show "recordOf s2 r x = recordOf s r x"
      by (simp add: s1_def recordOf_assigned_any)
  qed
  have u2: "server (update s2) = server (update s) @ map (recordOf s rid) [a, b, c]"
    by (simp add: s2_def s1_def assigned_def)
  have n2: "nextReplicationId s2 = rid + 1" by (simp add: s2_def)
  have "groupsAssigned s (a # b # c # rest) = groupsAssigned s2 rest"
    by (simp add: s2_def s1_def rid_def)
  then show ?case
    by (simp add: ih r2 u2 n2 rid_def [symmetric])
qed simp_all

lemma groupsAssigned_iget:
  assumes "distinct R"
  shows "iget (groupsAssigned s R) x =
     map_option (\<lambda>e. case map_of (groupIds (nextReplicationId s) R) x of
                       None \<Rightarrow> e | Some r \<Rightarrow> e\<lparr>replicationId := r\<rparr>) (iget s x)"
  using assms
proof (induction s R rule: groupsAssigned.induct)
  case (1 s a b c rest)
  define rid where "rid = nextReplicationId s"
  define s1 where "s1 = assigned s rid [a, b, c] (map (recordOf s rid) [a, b, c])"
  define s2 where "s2 = s1\<lparr>nextReplicationId := rid + 1\<rparr>"
  have d: "distinct rest" using "1.prems" by simp
  have ih: "iget (groupsAssigned s2 rest) x =
     map_option (\<lambda>e. case map_of (groupIds (nextReplicationId s2) rest) x of
                       None \<Rightarrow> e | Some r \<Rightarrow> e\<lparr>replicationId := r\<rparr>) (iget s2 x)"
    unfolding s2_def s1_def rid_def by (rule "1.IH" [OF d])
  have g2: "iget s2 x = map_option (\<lambda>e. if x \<in> set [a, b, c] then e\<lparr>replicationId := rid\<rparr> else e) (iget s x)"
  proof -
    have "iget s2 x = iget s1 x" by (rule iget_cong_serverList) (simp add: s2_def)
    then show ?thesis by (simp only: s1_def iget_assigned)
  qed
  have n2: "nextReplicationId s2 = rid + 1" by (simp add: s2_def)
  have eq: "groupsAssigned s (a # b # c # rest) = groupsAssigned s2 rest"
    by (simp add: s2_def s1_def rid_def)
  show ?case
  proof (cases "x \<in> set [a, b, c]")
    case True
    then have "x \<notin> set rest" using "1.prems" by auto
    then have "x \<notin> fst ` set (groupIds (rid + 1) rest)" using groupIds_keys by blast
    then have "map_of (groupIds (rid + 1) rest) x = None" by (simp add: map_of_eq_None_iff)
    then show ?thesis
      using True unfolding eq ih g2 n2
      by (cases "iget s x") (auto simp: rid_def)
  next
    case False
    then show ?thesis
      unfolding eq ih g2 n2
      by (cases "iget s x") (auto simp: rid_def)
  qed
qed (simp_all add: map_option_ident)


lemma collect_drop:
  "i \<le> length (serverList s) \<Longrightarrow>
     collectFreeBackups (drop i (serverList s)) acc =
       acc @ groupMembers s 0 i (length (serverList s))"
proof (induction "length (serverList s) - i" arbitrary: i acc)
  case 0
  then show ?case by (simp add: groupMembers_def)
next
  case (Suc m)
  then have i: "i < length (serverList s)" by simp
  have d: "drop i (serverList s) = serverList s ! i # drop (Suc i) (serverList s)"
    using i by (simp add: Cons_nth_drop_Suc)
  have ih: "\<And>acc. collectFreeBackups (drop (Suc i) (serverList s)) acc =
       acc @ groupMembers s 0 (Suc i) (length (serverList s))"
    using Suc.hyps(2) i by (intro Suc.hyps(1)) simp_all
  show ?case
    unfolding d groupMembers_step [OF i]
    by (simp add: ih matchAt_def idAt_def split: option.splits)
qed

lemma collectFreeBackups_eq:
  "collectFreeBackups (serverList s) [] = groupMembers s 0 0 (length (serverList s))"
  using collect_drop [of 0 s "[]"] by simp

lemma groupMembers_distinct:
  assumes "slotsConsistent s" "k \<le> length (serverList s)"
  shows "distinct (groupMembers s gid i k)"
proof -
  have inj: "inj_on (idAt s) (set (filter (matchAt s gid) [i..<k]))"
  proof (rule inj_onI)
    fix x y
    assume x: "x \<in> set (filter (matchAt s gid) [i..<k])"
      and y: "y \<in> set (filter (matchAt s gid) [i..<k])" and eq: "idAt s x = idAt s y"
    from x have xm: "matchAt s gid x" and xl: "x < length (serverList s)"
      using assms(2) by simp_all
    from y have ym: "matchAt s gid y" and yl: "y < length (serverList s)"
      using assms(2) by simp_all
    from xm obtain ex where ex: "entry (serverList s ! x) = Some ex"
      by (cases "entry (serverList s ! x)") (simp_all add: matchAt_def)
    from ym obtain ey where ey: "entry (serverList s ! y) = Some ey"
      by (cases "entry (serverList s ! y)") (simp_all add: matchAt_def)
    have ix: "idAt s x = serverId ex" using ex by (simp add: idAt_def)
    have iy: "idAt s y = serverId ey" using ey by (simp add: idAt_def)
    have "x = unat (indexNumber (idAt s x))"
      unfolding ix by (rule slotsConsistent_index [OF assms(1) xl ex, symmetric])
    also have "\<dots> = unat (indexNumber (idAt s y))" by (simp only: eq)
    also have "\<dots> = y"
      unfolding iy by (rule slotsConsistent_index [OF assms(1) yl ey])
    finally show "x = y" .
  qed
  show ?thesis
    unfolding groupMembers_def
    by (rule distinct_map [THEN iffD2]) (intro conjI distinct_filter distinct_upt inj)
qed

lemma exFour_consistent: "slotsConsistent exFour"
  by code_simp

lemma groupIds_nth:
  "groupIds rid R = map (\<lambda>k. (R ! k, rid + of_nat (k div 3))) [0..<3 * (length R div 3)]"
proof (induction rid R rule: groupIds.induct)
  case (1 rid a b c rest)
  define m where "m = 3 * (length rest div 3)"
  have len: "3 * (length (a # b # c # rest) div 3) = m + 3"
    by (simp add: m_def div3_add)
  have upt: "[0..<m + 3] = [0, 1, 2] @ map (\<lambda>k. k + 3) [0..<m]"
  proof -
    have "[0..<m + 3] = [0..<3] @ [3..<m + 3]"
      by (metis add.commute le_add2 upt_add_eq_append zero_le add_0)
    moreover have "[0..<3] = [0, 1, 2]" by (simp add: upt_rec)
    moreover have "[3..<m + 3] = map (\<lambda>k. k + 3) [0..<m]" by (simp add: map_add_upt)
    ultimately show ?thesis by simp
  qed
  have tail: "map (\<lambda>k. ((a # b # c # rest) ! (k + 3), rid + of_nat ((k + 3) div 3))) [0..<m]
      = map (\<lambda>k. (rest ! k, rid + 1 + of_nat (k div 3))) [0..<m]"
  proof (rule map_cong [OF refl])
    fix k
    have "(k + 3) div 3 = Suc (k div 3)" using div3_add [of k] by (simp add: add.commute)
    then show "((a # b # c # rest) ! (k + 3), rid + of_nat ((k + 3) div 3)) =
               (rest ! k, rid + 1 + of_nat (k div 3))"
      by simp
  qed
  have lhs: "groupIds rid (a # b # c # rest) =
      (a, rid) # (b, rid) # (c, rid) #
      map (\<lambda>k. (rest ! k, rid + 1 + of_nat (k div 3))) [0..<m]"
    by (simp add: "1.IH" m_def)
  have rhs: "map (\<lambda>k. ((a # b # c # rest) ! k, rid + of_nat (k div 3)))
               ([0, 1, 2] @ map (\<lambda>k. k + 3) [0..<m]) =
      (a, rid) # (b, rid) # (c, rid) #
      map (\<lambda>k. ((a # b # c # rest) ! (k + 3), rid + of_nat ((k + 3) div 3))) [0..<m]"
    by (simp add: o_def)
  show ?case
    unfolding len upt lhs rhs tail ..
qed simp_all

text \<open>
  C3, as the code has it. On a list whose occupied slots hold ids of their own index,
  \<open>createReplicationGroup\<close> returns. Its candidates are the UP backups whose
  replication id is 0, gathered in slot order (\<open>groupMembers s 0 0\<close>). They are
  popped from the back: the reversed candidate list is consumed three at a time, the
  first three (the highest slots) get \<open>nextReplicationId\<close>, the next three one
  more, and so on, while at least three remain. Every popped candidate is assigned (on
  such a list each one is found again, so no group is cut short), every other entry is
  as before, one record per popped candidate is appended to the pending update in pop
  order, \<open>nextReplicationId\<close> has grown by the number of groups, and nothing else
  of the state has changed.
\<close>

theorem createReplicationGroup_pops_last_three:
  assumes "slotsConsistent s"
  shows "\<exists>s'. createReplicationGroup s = Returns () s' \<and>
           nextReplicationId s' =
             nextReplicationId s +
             of_nat (length (groupMembers s 0 0 (length (serverList s))) div 3) \<and>
           (\<forall>x. iget s' x =
                map_option
                  (\<lambda>e. case map_of (groupIds (nextReplicationId s)
                                      (rev (groupMembers s 0 0 (length (serverList s))))) x of
                         None \<Rightarrow> e
                       | Some r \<Rightarrow> e\<lparr>replicationId := r\<rparr>)
                  (iget s x)) \<and>
           server (update s') =
             server (update s) @
             map (\<lambda>(b, r). recordOf s r b)
               (groupIds (nextReplicationId s)
                  (rev (groupMembers s 0 0 (length (serverList s))))) \<and>
           s'\<lparr>serverList := serverList s, update := update s,
              nextReplicationId := nextReplicationId s\<rparr> = s"
proof -
  define fb where "fb = groupMembers s 0 0 (length (serverList s))"
  have d: "distinct (rev fb)"
    unfolding fb_def distinct_rev by (rule groupMembers_distinct [OF assms order_refl])
  have up: "\<forall>b\<in>set (rev fb). \<exists>e. iget s b = Some e \<and> status e = UP"
    using groupMembers_index [OF assms order_refl] unfolding fb_def by auto
  have "createReplicationGroup s = createGroups s (rev (rev fb))"
    by (simp add: createReplicationGroup_def collectFreeBackups_eq fb_def)
  also have "\<dots> = Returns () (groupsAssigned s (rev fb))"
    by (rule createGroups_eq_groupsAssigned [OF assms up])
  finally have run: "createReplicationGroup s = Returns () (groupsAssigned s (rev fb))" .
  show ?thesis
    unfolding fb_def [symmetric] run
    using groupsAssigned_next [of s "rev fb"] groupsAssigned_iget [OF d, of s]
      groupsAssigned_records [of s "rev fb"] groupsAssigned_frame [of s "rev fb"]
    by simp
qed

theorem createReplicationGroup_pops_last_three_witness:
  "slotsConsistent exFour \<and>
   groupMembers exFour 0 0 (length (serverList exFour)) =
     [exId 1 1, exId 2 1, exId 3 1, exId 4 1] \<and>
   (case createReplicationGroup exFour of
      Returns _ s' \<Rightarrow>
        nextReplicationId s' = 2 \<and>
        map (\<lambda>p. map_option replicationId (entry p)) (serverList s') =
          [None, Some 0, Some 1, Some 1, Some 1]
    | Throws _ _ \<Rightarrow> False
    | Aborts \<Rightarrow> False)"
proof -
  have run: "groupMembers exFour 0 0 (length (serverList exFour)) =
     [exId 1 1, exId 2 1, exId 3 1, exId 4 1] \<and>
   (case createReplicationGroup exFour of
      Returns _ s' \<Rightarrow>
        nextReplicationId s' = 2 \<and>
        map (\<lambda>p. map_option replicationId (entry p)) (serverList s') =
          [None, Some 0, Some 1, Some 1, Some 1]
    | Throws _ _ \<Rightarrow> False
    | Aborts \<Rightarrow> False)"
    by code_simp
  show ?thesis
    using createReplicationGroup_pops_last_three [OF exFour_consistent] exFour_consistent run
    by simp
qed

text \<open>
  C3, as stated, fails. With four free backups in slots 1 to 4 the candidates in list
  order are the ids of slots 1, 2, 3, 4. Taking three in list order would group slots
  1, 2 and 3; the call groups slots 4, 3 and 2 (the records are appended in that order)
  and leaves the backup of slot 1 without a group.
\<close>

theorem createReplicationGroup_list_order_counterexample:
  "collectFreeBackups (serverList exFour) [] = [exId 1 1, exId 2 1, exId 3 1, exId 4 1] \<and>
   (case createReplicationGroup exFour of
      Returns _ s' \<Rightarrow>
        map (\<lambda>p. map_option replicationId (entry p)) (serverList s') =
          [None, Some 0, Some 1, Some 1, Some 1] \<and>
        map pb_server_id (server (update s')) = [exId 4 1, exId 3 1, exId 2 1]
    | Throws _ _ \<Rightarrow> False
    | Aborts \<Rightarrow> False)"
  by code_simp

section \<open>Forcing a server down\<close>

lemma crashed_UP:
  assumes "iget s sid = Some e" "status e = UP"
  shows "crashed s sid = Returns () (afterCrashed s sid e)"
  using assms
  by (auto simp: iget_Some_iff crashed_def Let_def isMaster_def isBackup_def afterCrashed_def)

lemma crashed_CRASHED:
  assumes "iget s sid = Some e" "status e = CRASHED"
  shows "crashed s sid = Returns () s"
  using assms by (auto simp: iget_Some_iff crashed_def Let_def)

lemma remove_CRASHED:
  assumes "iget s sid = Some e" "status e = CRASHED"
  shows "remove s sid = Returns () (afterRemoved s sid e)"
  using assms crashed_CRASHED [OF assms]
  by (auto simp: iget_Some_iff remove_def Let_def andThen_def afterRemoved_def)


lemma status_CRASHED_id: "status e = CRASHED \<Longrightarrow> e\<lparr>status := CRASHED\<rparr> = e"
  by (cases e) simp

lemma crashed_run:
  assumes "iget s sid = Some e" "status e \<noteq> DOWN"
  shows "crashed s sid = Returns () (afterCrashedCall s sid e)"
proof (cases "status e = CRASHED")
  case True
  then show ?thesis using crashed_CRASHED [OF assms(1) True] by (simp add: afterCrashedCall_def)
next
  case False
  with assms(2) have "status e = UP" by (cases "status e") simp_all
  then show ?thesis using crashed_UP [OF assms(1)] False by (simp add: afterCrashedCall_def)
qed

lemma serverList_afterCrashed:
  "serverList (afterCrashed s sid e) =
     (serverList s)[unat (indexNumber sid) :=
        (serverList s ! unat (indexNumber sid))\<lparr>entry := Some (e\<lparr>status := CRASHED\<rparr>)\<rparr>]"
  by (simp add: afterCrashed_def notifyTrackers_def add_server_def setEntry_def)

lemma serverList_afterRemoved:
  "serverList (afterRemoved s sid e) =
     (serverList s)[unat (indexNumber sid) :=
        (serverList s ! unat (indexNumber sid))\<lparr>entry := None\<rparr>]"
  by (cases "unat (indexNumber sid) < length (serverList s)")
     (simp_all add: afterRemoved_def notifyTrackers_def add_server_def setEntry_def
        list_update_beyond not_less)

lemma iget_afterCrashed:
  assumes "iget s sid = Some e"
  shows "iget (afterCrashed s sid e) b = (if b = sid then Some (e\<lparr>status := CRASHED\<rparr>) else iget s b)"
proof -
  have sid: "serverId (e\<lparr>status := CRASHED\<rparr>) = sid" using assms by (simp add: iget_Some_iff)
  have "iget (afterCrashed s sid e) b = iget (setOne s sid (e\<lparr>status := CRASHED\<rparr>) (update s)) b"
    by (rule iget_cong_serverList) (simp add: serverList_afterCrashed setOne_def)
  then show ?thesis by (simp only: iget_setOne [OF assms sid])
qed

lemma slotsConsistent_afterCrashed:
  assumes "slotsConsistent s" "iget s sid = Some e"
  shows "slotsConsistent (afterCrashed s sid e)"
proof -
  have sid: "serverId (e\<lparr>status := CRASHED\<rparr>) = sid" using assms(2) by (simp add: iget_Some_iff)
  have "slotsConsistent (afterCrashed s sid e) =
        slotsConsistent (setOne s sid (e\<lparr>status := CRASHED\<rparr>) (update s))"
    by (rule slotsConsistent_cong_serverList) (simp add: serverList_afterCrashed setOne_def)
  then show ?thesis using slotsConsistent_setOne [OF assms sid] by simp
qed

lemma iget_afterCrashedCall:
  assumes "iget s sid = Some e"
  shows "iget (afterCrashedCall s sid e) b =
     (if b = sid then Some (e\<lparr>status := CRASHED\<rparr>) else iget s b)"
  using assms by (simp add: afterCrashedCall_def iget_afterCrashed status_CRASHED_id)

lemma slotsConsistent_afterCrashedCall:
  assumes "slotsConsistent s" "iget s sid = Some e"
  shows "slotsConsistent (afterCrashedCall s sid e)"
  using assms by (simp add: afterCrashedCall_def slotsConsistent_afterCrashed)

lemma iget_afterRemoved:
  assumes "iget s sid = Some e"
  shows "iget (afterRemoved s sid e) b = (if b = sid then None else iget s b)"
proof -
  from assms have ib: "unat (indexNumber sid) < length (serverList s)"
    and eb: "entry (serverList s ! unat (indexNumber sid)) = Some e" and sb: "serverId e = sid"
    by (simp_all add: iget_Some_iff)
  show ?thesis
  proof (cases "unat (indexNumber b) = unat (indexNumber sid)")
    case True
    then show ?thesis using ib eb sb
      by (auto simp: iget_def Let_def serverList_afterRemoved)
  next
    case False
    then have "b \<noteq> sid" by auto
    then show ?thesis using False
      by (simp add: iget_def Let_def serverList_afterRemoved)
  qed
qed

lemma slotsConsistent_afterRemoved:
  assumes "slotsConsistent s"
  shows "slotsConsistent (afterRemoved s sid e)"
  unfolding slotsConsistent_iff
proof (intro allI impI)
  fix i assume "i < length (serverList (afterRemoved s sid e))"
  then have i: "i < length (serverList s)" by (simp add: serverList_afterRemoved)
  show "case entry (serverList (afterRemoved s sid e) ! i) of None \<Rightarrow> True
        | Some e \<Rightarrow> unat (indexNumber (serverId e)) = i"
  proof (cases "i = unat (indexNumber sid)")
    case True
    then show ?thesis using i by (simp add: serverList_afterRemoved)
  next
    case False
    then have "serverList (afterRemoved s sid e) ! i = serverList s ! i"
      by (simp add: serverList_afterRemoved)
    then show ?thesis using assms i unfolding slotsConsistent_iff by simp
  qed
qed

lemma groupMembers_set:
  assumes "slotsConsistent s"
  shows "b \<in> set (groupMembers s gid 0 (length (serverList s))) \<longleftrightarrow>
         (\<exists>e. iget s b = Some e \<and> isBackup e \<and> replicationId e = gid)"
proof
  assume "b \<in> set (groupMembers s gid 0 (length (serverList s)))"
  then obtain j where j: "j < length (serverList s)" "matchAt s gid j" "b = idAt s j"
    by (auto simp: groupMembers_def)
  from j(2) obtain e where e: "entry (serverList s ! j) = Some e" "isBackup e" "replicationId e = gid"
    by (cases "entry (serverList s ! j)") (simp_all add: matchAt_def)
  have "b = serverId e" using j(3) e(1) by (simp add: idAt_def)
  then have "iget s b = Some e" using slotsConsistent_iget [OF assms j(1) e(1)] by simp
  with e show "\<exists>e. iget s b = Some e \<and> isBackup e \<and> replicationId e = gid" by blast
next
  assume "\<exists>e. iget s b = Some e \<and> isBackup e \<and> replicationId e = gid"
  then obtain e where e: "iget s b = Some e" "isBackup e" "replicationId e = gid" by blast
  from e(1) have ib: "unat (indexNumber b) < length (serverList s)"
    and eb: "entry (serverList s ! unat (indexNumber b)) = Some e" and sb: "serverId e = b"
    by (simp_all add: iget_Some_iff)
  have "matchAt s gid (unat (indexNumber b))" using eb e(2,3) by (simp add: matchAt_def)
  moreover have "idAt s (unat (indexNumber b)) = b" using eb sb by (simp add: idAt_def)
  ultimately show "b \<in> set (groupMembers s gid 0 (length (serverList s)))"
    using ib by (force simp: groupMembers_def)
qed

lemma removeReplicationGroup_effect:
  assumes "slotsConsistent s"
  shows "removeReplicationGroup s gid = Returns () (afterGroupReset s gid)"
proof (cases "gid = 0")
  case True
  then show ?thesis by (simp add: removeReplicationGroup_def afterGroupReset_def)
next
  case False
  have "removeReplicationGroup_scan s gid 0 [] = Returns ()
             (assigned s 0 (groupMembers s gid 0 (length (serverList s)))
                (concat (map (\<lambda>k. map (recordOf s 0) ([] @ groupMembers s gid 0 (Suc k)))
                   [0..<length (serverList s)])))"
    by (rule remove_scan_effect [OF assms]) simp_all
  then show ?thesis using False by (simp add: removeReplicationGroup_def afterGroupReset_def)
qed

lemma createReplicationGroup_effect:
  assumes "slotsConsistent s"
  shows "createReplicationGroup s = Returns () (afterRegroup s)"
proof -
  define fb where "fb = groupMembers s 0 0 (length (serverList s))"
  have up: "\<forall>b\<in>set (rev fb). \<exists>e. iget s b = Some e \<and> status e = UP"
    using groupMembers_index [OF assms order_refl] unfolding fb_def by auto
  have "createReplicationGroup s = createGroups s (rev (rev fb))"
    by (simp add: createReplicationGroup_def collectFreeBackups_eq fb_def)
  also have "\<dots> = Returns () (groupsAssigned s (rev fb))"
    by (rule createGroups_eq_groupsAssigned [OF assms up])
  finally show ?thesis by (simp add: afterRegroup_def fb_def)
qed

lemma recordOf_fields:
  assumes "iget s b = Some e"
  shows "pb_status (recordOf s r b) = status e" "pb_server_id (recordOf s r b) = b"
    "pb_replication_id (recordOf s r b) = r"
proof -
  have sid: "serverId e = b" using assms by (simp add: iget_Some_iff)
  show "pb_status (recordOf s r b) = status e" "pb_server_id (recordOf s r b) = b"
    "pb_replication_id (recordOf s r b) = r"
    using assms sid by (simp_all add: recordOf_def Entry_serialize_def)
qed

lemma slotsConsistent_afterGroupReset:
  "slotsConsistent s \<Longrightarrow> slotsConsistent (afterGroupReset s gid)"
  by (simp add: afterGroupReset_def slotsConsistent_assigned)

lemma iget_afterGroupReset:
  assumes "slotsConsistent s"
  shows "iget (afterGroupReset s gid) b =
     map_option (\<lambda>e. if isBackup e \<and> replicationId e = gid then e\<lparr>replicationId := 0\<rparr> else e)
       (iget s b)"
proof (cases "gid = 0")
  case True
  have "map_option (\<lambda>e. if isBackup e \<and> replicationId e = 0 then e\<lparr>replicationId := 0\<rparr> else e)
          (iget s b) = iget s b"
    by (cases "iget s b") auto
  then show ?thesis using True by (simp add: afterGroupReset_def)
next
  case False
  show ?thesis
  proof (cases "iget s b")
    case None
    then show ?thesis using False by (simp add: afterGroupReset_def iget_assigned)
  next
    case (Some e)
    have "b \<in> set (groupMembers s gid 0 (length (serverList s))) \<longleftrightarrow>
          isBackup e \<and> replicationId e = gid"
      using groupMembers_set [OF assms, of b gid] Some by simp
    then show ?thesis using False Some by (simp add: afterGroupReset_def iget_assigned)
  qed
qed

lemma records_afterGroupReset:
  assumes "slotsConsistent s"
  shows "\<exists>G. server (update (afterGroupReset s gid)) = server (update s) @ G \<and>
             (\<forall>r\<in>set G. pb_status r = UP \<and> pb_replication_id r = 0)"
proof (cases "gid = 0")
  case True
  then show ?thesis by (simp add: afterGroupReset_def)
next
  case False
  define G where "G = concat (map (\<lambda>k. map (recordOf s 0) (groupMembers s gid 0 (Suc k)))
                [0..<length (serverList s)])"
  have "\<forall>r\<in>set G. pb_status r = UP \<and> pb_replication_id r = 0"
  proof
    fix r assume "r \<in> set G"
    then obtain k b where k: "k < length (serverList s)"
      and b: "b \<in> set (groupMembers s gid 0 (Suc k))" and r: "r = recordOf s 0 b"
      by (auto simp: G_def)
    have "Suc k \<le> length (serverList s)" using k by simp
    from groupMembers_index [OF assms this b] obtain e where "iget s b = Some e" "status e = UP"
      by blast
    then show "pb_status r = UP \<and> pb_replication_id r = 0"
      unfolding r by (simp add: recordOf_fields)
  qed
  moreover have "server (update (afterGroupReset s gid)) = server (update s) @ G"
    using False by (simp add: afterGroupReset_def assigned_def G_def)
  ultimately show ?thesis by blast
qed



lemma iget_afterRegroup_notUP:
  assumes "slotsConsistent s" "\<forall>e. iget s b = Some e \<longrightarrow> status e \<noteq> UP"
  shows "iget (afterRegroup s) b = iget s b"
proof -
  define fb where "fb = groupMembers s 0 0 (length (serverList s))"
  have d: "distinct (rev fb)"
    unfolding fb_def distinct_rev by (rule groupMembers_distinct [OF assms(1) order_refl])
  have "b \<notin> set fb"
    using groupMembers_index [OF assms(1) order_refl, of b 0 0] assms(2) unfolding fb_def by auto
  then have "b \<notin> fst ` set (groupIds (nextReplicationId s) (rev fb))"
    using groupIds_keys [of "nextReplicationId s" "rev fb"] by auto
  then have "map_of (groupIds (nextReplicationId s) (rev fb)) b = None"
    by (simp add: map_of_eq_None_iff)
  then show ?thesis
    unfolding afterRegroup_def fb_def [symmetric] groupsAssigned_iget [OF d]
    by (simp add: map_option_ident)
qed

lemma getReference_Some:
  "iget s sid = Some e \<Longrightarrow> getReferenceFromServerId s sid = Returns e s"
  by (auto simp: getReferenceFromServerId_def iget_Some_iff Let_def)

lemma getReference_None:
  "iget s sid = None \<Longrightarrow> getReferenceFromServerId s sid = Throws ServerListException s"
  by (auto simp: getReferenceFromServerId_def iget_None_iff Let_def split: option.splits)

lemma iget_afterVictimDown:
  assumes "iget s sid = Some e"
  shows "iget (afterVictimDown s sid e) b =
     (if b = sid then (if has (services e) MASTER_SERVICE then Some (e\<lparr>status := CRASHED\<rparr>) else None)
      else iget s b)"
proof -
  define s5 where "s5 = (if has (services e) MASTER_SERVICE then afterCrashedCall s sid e
        else afterRemoved (afterCrashedCall s sid e) sid (e\<lparr>status := CRASHED\<rparr>))"
  have c: "iget (afterCrashedCall s sid e) sid = Some (e\<lparr>status := CRASHED\<rparr>)"
    by (simp add: iget_afterCrashedCall [OF assms])
  have "iget (afterVictimDown s sid e) b = iget s5 b"
    by (rule iget_cong_serverList) (simp add: afterVictimDown_def startMasterRecovery_def s5_def)
  also have "\<dots> = (if b = sid then (if has (services e) MASTER_SERVICE then Some (e\<lparr>status := CRASHED\<rparr>) else None)
      else iget s b)"
    unfolding s5_def by (simp add: iget_afterRemoved [OF c] iget_afterCrashedCall [OF assms])
  finally show ?thesis .
qed

lemma slotsConsistent_afterVictimDown:
  assumes "slotsConsistent s" "iget s sid = Some e"
  shows "slotsConsistent (afterVictimDown s sid e)"
proof -
  define s5 where "s5 = (if has (services e) MASTER_SERVICE then afterCrashedCall s sid e
        else afterRemoved (afterCrashedCall s sid e) sid (e\<lparr>status := CRASHED\<rparr>))"
  have "slotsConsistent s5"
    unfolding s5_def
    using slotsConsistent_afterCrashedCall [OF assms]
      slotsConsistent_afterRemoved [OF slotsConsistent_afterCrashedCall [OF assms]]
    by simp
  moreover have "slotsConsistent (afterVictimDown s sid e) = slotsConsistent s5"
    by (rule slotsConsistent_cong_serverList)
       (simp add: afterVictimDown_def startMasterRecovery_def s5_def)
  ultimately show ?thesis by simp
qed

lemma ForceServerDown_complete_run:
  assumes c: "slotsConsistent s" and g: "iget s sid = Some e" and nd: "status e \<noteq> DOWN"
  shows "ForceServerDown_complete s sid entryId =
     Returns ()
       (invalidate
          ([serverInfoLogId e, entryId] @
           (if serverUpdateLogId e \<noteq> 0 then [serverUpdateLogId e] else []))
          (afterRegroup (afterGroupReset (afterVictimDown s sid e) (replicationId e))))"
proof -
  define s5 where "s5 = (if has (services e) MASTER_SERVICE then afterCrashedCall s sid e
        else afterRemoved (afterCrashedCall s sid e) sid (e\<lparr>status := CRASHED\<rparr>))"
  have gc: "iget (afterCrashedCall s sid e) sid = Some (e\<lparr>status := CRASHED\<rparr>)"
    by (simp add: iget_afterCrashedCall [OF g])
  have rm: "(if \<not> has (services e) MASTER_SERVICE then remove (afterCrashedCall s sid e) sid
             else Returns () (afterCrashedCall s sid e)) = Returns () s5"
    unfolding s5_def using remove_CRASHED [OF gc] by simp
  have v: "startMasterRecovery e s5 = afterVictimDown s sid e"
    by (simp add: afterVictimDown_def s5_def)
  have c6: "slotsConsistent (afterVictimDown s sid e)"
    by (rule slotsConsistent_afterVictimDown [OF c g])
  have c7: "slotsConsistent (afterGroupReset (afterVictimDown s sid e) (replicationId e))"
    by (rule slotsConsistent_afterGroupReset [OF c6])
  show ?thesis
    unfolding ForceServerDown_complete_def getServerInfoLogId_def getServerUpdateLogId_def
    by (simp only: getReference_Some [OF g] andThen_def outcome.case crashed_run [OF g nd] rm v
        removeReplicationGroup_effect [OF c6] createReplicationGroup_effect [OF c7])
qed


lemma groupsAssigned_None:
  "i < length (serverList s) \<Longrightarrow> entry (serverList s ! i) = None \<Longrightarrow>
     i < length (serverList (groupsAssigned s R)) \<and>
     entry (serverList (groupsAssigned s R) ! i) = None"
proof (induction s R rule: groupsAssigned.induct)
  case (1 s a b c rest)
  define s2 where "s2 = (assigned s (nextReplicationId s) [a, b, c]
           (map (recordOf s (nextReplicationId s)) [a, b, c]))
          \<lparr>nextReplicationId := nextReplicationId s + 1\<rparr>"
  have "i < length (serverList s2)" using "1.prems"(1) by (simp add: s2_def assigned_def)
  moreover have "entry (serverList s2 ! i) = None"
    using "1.prems" by (simp add: s2_def assigned_def entry_setRid)
  ultimately have "i < length (serverList (groupsAssigned s2 rest)) \<and>
     entry (serverList (groupsAssigned s2 rest) ! i) = None"
    unfolding s2_def by (rule "1.IH")
  then show ?case by (simp add: s2_def)
qed simp_all

lemma groupsAssigned_fields:
  "recoveries (groupsAssigned s R) = recoveries s"
  "trackers (groupsAssigned s R) = trackers s"
  "version (groupsAssigned s R) = version s"
  "updates (groupsAssigned s R) = updates s"
  "numberOfMasters (groupsAssigned s R) = numberOfMasters s"
  "numberOfBackups (groupsAssigned s R) = numberOfBackups s"
  "logCalls (groupsAssigned s R) = logCalls s"
  "expectedEntryId (groupsAssigned s R) = expectedEntryId s"
  "lastScan (groupsAssigned s R) = lastScan s"
  using arg_cong [OF groupsAssigned_frame [of s R], of recoveries]
    arg_cong [OF groupsAssigned_frame [of s R], of trackers]
    arg_cong [OF groupsAssigned_frame [of s R], of version]
    arg_cong [OF groupsAssigned_frame [of s R], of updates]
    arg_cong [OF groupsAssigned_frame [of s R], of numberOfMasters]
    arg_cong [OF groupsAssigned_frame [of s R], of numberOfBackups]
    arg_cong [OF groupsAssigned_frame [of s R], of logCalls]
    arg_cong [OF groupsAssigned_frame [of s R], of expectedEntryId]
    arg_cong [OF groupsAssigned_frame [of s R], of lastScan]
  by simp_all


lemma afterVictimDown_fields:
  "recoveries (afterVictimDown s sid e) = recoveries s @ [e]"
  "server (update (afterVictimDown s sid e)) =
     server (update s) @
     (if status e = CRASHED then [] else [Entry_serialize (e\<lparr>status := CRASHED\<rparr>)]) @
     (if has (services e) MASTER_SERVICE then [] else [Entry_serialize (e\<lparr>status := DOWN\<rparr>)])"
  "version (afterVictimDown s sid e) = version s"
  "updates (afterVictimDown s sid e) = updates s"
  "length (serverList (afterVictimDown s sid e)) = length (serverList s)"
  "nextReplicationId (afterVictimDown s sid e) = nextReplicationId s"
  by (simp_all add: afterVictimDown_def afterCrashedCall_def startMasterRecovery_def
      afterCrashed_def afterRemoved_def notifyTrackers_def add_server_def setEntry_def)

lemma trackers_afterVictimDown:
  assumes "status e = UP"
  shows "trackers (afterVictimDown s sid e) =
     map (\<lambda>t. if has (services e) MASTER_SERVICE
               then fireCallback (enqueueChange (e\<lparr>status := CRASHED\<rparr>) SERVER_CRASHED t)
               else fireCallback (enqueueChange (e\<lparr>status := DOWN\<rparr>) SERVER_REMOVED
                      (fireCallback (enqueueChange (e\<lparr>status := CRASHED\<rparr>) SERVER_CRASHED t))))
       (trackers s)"
  using assms
  by (simp add: afterVictimDown_def afterCrashedCall_def startMasterRecovery_def
      afterCrashed_def afterRemoved_def notifyTrackers_def add_server_def setEntry_def)

lemma afterGroupReset_fields:
  "recoveries (afterGroupReset s gid) = recoveries s"
  "trackers (afterGroupReset s gid) = trackers s"
  "version (afterGroupReset s gid) = version s"
  "updates (afterGroupReset s gid) = updates s"
  "length (serverList (afterGroupReset s gid)) = length (serverList s)"
  "nextReplicationId (afterGroupReset s gid) = nextReplicationId s"
  by (simp_all add: afterGroupReset_def assigned_def)

lemma afterGroupReset_None:
  "i < length (serverList s) \<Longrightarrow> entry (serverList s ! i) = None \<Longrightarrow>
     entry (serverList (afterGroupReset s gid) ! i) = None"
  by (simp add: afterGroupReset_def assigned_def entry_setRid)

lemma afterVictimDown_slot:
  assumes "iget s sid = Some e" "\<not> has (services e) MASTER_SERVICE"
  shows "entry (serverList (afterVictimDown s sid e) ! unat (indexNumber sid)) = None"
proof -
  have "unat (indexNumber sid) < length (serverList s)" using assms(1) by (simp add: iget_Some_iff)
  then show ?thesis
    using assms(2)
    by (simp add: afterVictimDown_def afterCrashedCall_def startMasterRecovery_def
        serverList_afterRemoved serverList_afterCrashed)
qed

lemma groupIds_short: "length R < 3 \<Longrightarrow> groupIds rid R = []"
  by (cases "(rid, R)" rule: groupIds.cases) simp_all

text \<open>
  C5, as the code has it. Let \<open>e\<close> be the UP entry of \<open>sid\<close> on a list whose
  slots hold ids of their own index. \<open>ForceServerDown::complete\<close> returns. Before its
  last step (\<open>createReplicationGroup\<close> on \<open>s_reset\<close>) the victim's entry is
  CRASHED when it offers MASTER, and is gone otherwise; every other entry is as before,
  except that each UP backup with the victim's replication id has replication id 0. The
  pending update got the victim's CRASHED record, then its DOWN record exactly when it
  does not offer MASTER, then reset records (UP, replication id 0) only. The last step
  then forms new groups from the stack \<open>F\<close> of the UP backups without a group, which
  are the victim's former mates and the backups that had none: taken three at a time from
  the highest slot down, each three get the next fresh replication id, so in the state
  returned a former mate has replication id 0 only when it was left over; with fewer than
  three on the stack nothing changes and all former mates are returned with replication id
  0. In the state returned the victim's entry is still as described (its slot is empty when
  it does not offer MASTER), \<open>startMasterRecovery\<close> was called once more, with the
  entry as it was before the crash, every tracker got the CRASHED event, followed by the
  REMOVED event exactly when the victim does not offer MASTER, and the log was told to
  invalidate the victim's records.
\<close>

theorem ForceServerDown_complete_effect:
  assumes "slotsConsistent s" "iget s sid = Some e" "status e = UP"
  shows "\<exists>s_reset s_grouped G F.
     ForceServerDown_complete s sid entryId =
       Returns ()
         (invalidate
            ([serverInfoLogId e, entryId] @
             (if serverUpdateLogId e \<noteq> 0 then [serverUpdateLogId e] else []))
            s_grouped) \<and>
     createReplicationGroup s_reset = Returns () s_grouped \<and>
     iget s_reset sid =
       (if has (services e) MASTER_SERVICE then Some (e\<lparr>status := CRASHED\<rparr>) else None) \<and>
     iget s_grouped sid = iget s_reset sid \<and>
     (\<not> has (services e) MASTER_SERVICE \<longrightarrow>
        entry (serverList s_grouped ! unat (indexNumber sid)) = None) \<and>
     recoveries s_grouped = recoveries s @ [e] \<and>
     (\<forall>b eb. b \<noteq> sid \<and> iget s b = Some eb \<longrightarrow>
        iget s_reset b =
          Some (if isBackup eb \<and> replicationId eb = replicationId e
                then eb\<lparr>replicationId := 0\<rparr> else eb)) \<and>
     F = rev (groupMembers s_reset 0 0 (length (serverList s_reset))) \<and>
     (\<forall>b. b \<in> set F \<longleftrightarrow>
        (\<exists>eb. b \<noteq> sid \<and> iget s b = Some eb \<and> isBackup eb \<and>
              (replicationId eb = 0 \<or> replicationId eb = replicationId e))) \<and>
     (\<forall>b eb. b \<noteq> sid \<and> iget s b = Some eb \<longrightarrow>
        iget s_grouped b =
          Some (case map_of (groupIds (nextReplicationId s) F) b of
                  None \<Rightarrow> if isBackup eb \<and> replicationId eb = replicationId e
                          then eb\<lparr>replicationId := 0\<rparr> else eb
                | Some r \<Rightarrow> eb\<lparr>replicationId := r\<rparr>)) \<and>
     (length F < 3 \<longrightarrow> (\<forall>b. iget s_grouped b = iget s_reset b)) \<and>
     nextReplicationId s_grouped = nextReplicationId s + of_nat (length F div 3) \<and>
     server (update s_reset) =
       server (update s) @ [Entry_serialize (e\<lparr>status := CRASHED\<rparr>)] @
       (if has (services e) MASTER_SERVICE then [] else [Entry_serialize (e\<lparr>status := DOWN\<rparr>)]) @
       G \<and>
     (\<forall>r\<in>set G. pb_status r = UP \<and> pb_replication_id r = 0) \<and>
     trackers s_grouped =
       map (\<lambda>t. if has (services e) MASTER_SERVICE
                 then fireCallback (enqueueChange (e\<lparr>status := CRASHED\<rparr>) SERVER_CRASHED t)
                 else fireCallback (enqueueChange (e\<lparr>status := DOWN\<rparr>) SERVER_REMOVED
                        (fireCallback (enqueueChange (e\<lparr>status := CRASHED\<rparr>) SERVER_CRASHED t))))
         (trackers s)"
proof -
  define s6 where "s6 = afterVictimDown s sid e"
  define s_reset where "s_reset = afterGroupReset s6 (replicationId e)"
  define s_grouped where "s_grouped = afterRegroup s_reset"
  define F where "F = rev (groupMembers s_reset 0 0 (length (serverList s_reset)))"
  have nd: "status e \<noteq> DOWN" using assms(3) by simp
  have c6: "slotsConsistent s6"
    unfolding s6_def by (rule slotsConsistent_afterVictimDown [OF assms(1,2)])
  have c7: "slotsConsistent s_reset"
    unfolding s_reset_def by (rule slotsConsistent_afterGroupReset [OF c6])
  have run: "ForceServerDown_complete s sid entryId =
       Returns ()
         (invalidate
            ([serverInfoLogId e, entryId] @
             (if serverUpdateLogId e \<noteq> 0 then [serverUpdateLogId e] else []))
            s_grouped)"
    unfolding s_grouped_def s_reset_def s6_def
    by (rule ForceServerDown_complete_run [OF assms(1,2) nd])
  have regroup: "createReplicationGroup s_reset = Returns () s_grouped"
    unfolding s_grouped_def by (rule createReplicationGroup_effect [OF c7])
  have g6: "\<And>b. iget s6 b =
     (if b = sid then (if has (services e) MASTER_SERVICE then Some (e\<lparr>status := CRASHED\<rparr>) else None)
      else iget s b)"
    unfolding s6_def by (rule iget_afterVictimDown [OF assms(2)])
  have victim: "iget s_reset sid =
       (if has (services e) MASTER_SERVICE then Some (e\<lparr>status := CRASHED\<rparr>) else None)"
    unfolding s_reset_def iget_afterGroupReset [OF c6] g6 by (simp add: isBackup_def)
  have notup: "\<forall>e'. iget s_reset sid = Some e' \<longrightarrow> status e' \<noteq> UP"
    unfolding victim by simp
  have victim2: "iget s_grouped sid = iget s_reset sid"
    unfolding s_grouped_def by (rule iget_afterRegroup_notUP [OF c7 notup])
  have slot: "\<not> has (services e) MASTER_SERVICE \<longrightarrow>
        entry (serverList s_grouped ! unat (indexNumber sid)) = None"
  proof
    assume nm: "\<not> has (services e) MASTER_SERVICE"
    have il: "unat (indexNumber sid) < length (serverList s)"
      using assms(2) by (simp add: iget_Some_iff)
    have e6: "entry (serverList s6 ! unat (indexNumber sid)) = None"
      unfolding s6_def by (rule afterVictimDown_slot [OF assms(2) nm])
    have l6: "unat (indexNumber sid) < length (serverList s6)"
      using il by (simp add: s6_def afterVictimDown_fields)
    have e7: "entry (serverList s_reset ! unat (indexNumber sid)) = None"
      unfolding s_reset_def by (rule afterGroupReset_None [OF l6 e6])
    have l7: "unat (indexNumber sid) < length (serverList s_reset)"
      using l6 by (simp add: s_reset_def afterGroupReset_fields)
    show "entry (serverList s_grouped ! unat (indexNumber sid)) = None"
      unfolding s_grouped_def afterRegroup_def
      using groupsAssigned_None [OF l7 e7] by simp
  qed
  have rec: "recoveries s_grouped = recoveries s @ [e]"
    by (simp add: s_grouped_def afterRegroup_def groupsAssigned_fields s_reset_def
        afterGroupReset_fields s6_def afterVictimDown_fields)
  have mates: "\<forall>b eb. b \<noteq> sid \<and> iget s b = Some eb \<longrightarrow>
        iget s_reset b =
          Some (if isBackup eb \<and> replicationId eb = replicationId e
                then eb\<lparr>replicationId := 0\<rparr> else eb)"
    unfolding s_reset_def iget_afterGroupReset [OF c6] g6 by simp
  have free: "b \<in> set F \<longleftrightarrow>
        (\<exists>eb. b \<noteq> sid \<and> iget s b = Some eb \<and> isBackup eb \<and>
              (replicationId eb = 0 \<or> replicationId eb = replicationId e))" for b
  proof -
    have m: "b \<in> set F \<longleftrightarrow>
        (\<exists>e'. iget s_reset b = Some e' \<and> isBackup e' \<and> replicationId e' = 0)"
      unfolding F_def set_rev by (rule groupMembers_set [OF c7])
    show ?thesis
    proof (cases "b = sid")
      case True
      then show ?thesis unfolding m using victim by (auto simp: isBackup_def)
    next
      case False
      show ?thesis
      proof (cases "iget s b")
        case None
        then have "iget s_reset b = None"
          unfolding s_reset_def iget_afterGroupReset [OF c6] g6 using False by simp
        then show ?thesis unfolding m using None by simp
      next
        case (Some eb)
        with mates False have r: "iget s_reset b =
          Some (if isBackup eb \<and> replicationId eb = replicationId e
                then eb\<lparr>replicationId := 0\<rparr> else eb)"
          by blast
        show ?thesis unfolding m r using Some False by (auto simp: isBackup_def)
      qed
    qed
  qed
  have d: "distinct F"
    unfolding F_def distinct_rev by (rule groupMembers_distinct [OF c7 order_refl])
  have n7: "nextReplicationId s_reset = nextReplicationId s"
    by (simp add: s_reset_def afterGroupReset_fields s6_def afterVictimDown_fields)
  have grouped: "iget s_grouped x =
     map_option (\<lambda>e. case map_of (groupIds (nextReplicationId s) F) x of
                       None \<Rightarrow> e | Some r \<Rightarrow> e\<lparr>replicationId := r\<rparr>) (iget s_reset x)" for x
    unfolding s_grouped_def afterRegroup_def F_def [symmetric] groupsAssigned_iget [OF d] n7 ..
  have returned: "\<forall>b eb. b \<noteq> sid \<and> iget s b = Some eb \<longrightarrow>
        iget s_grouped b =
          Some (case map_of (groupIds (nextReplicationId s) F) b of
                  None \<Rightarrow> if isBackup eb \<and> replicationId eb = replicationId e
                          then eb\<lparr>replicationId := 0\<rparr> else eb
                | Some r \<Rightarrow> eb\<lparr>replicationId := r\<rparr>)"
  proof (intro allI impI)
    fix b eb assume a: "b \<noteq> sid \<and> iget s b = Some eb"
    with mates have r: "iget s_reset b =
          Some (if isBackup eb \<and> replicationId eb = replicationId e
                then eb\<lparr>replicationId := 0\<rparr> else eb)"
      by blast
    show "iget s_grouped b =
          Some (case map_of (groupIds (nextReplicationId s) F) b of
                  None \<Rightarrow> if isBackup eb \<and> replicationId eb = replicationId e
                          then eb\<lparr>replicationId := 0\<rparr> else eb
                | Some r \<Rightarrow> eb\<lparr>replicationId := r\<rparr>)"
      unfolding grouped r by (simp split: option.splits)
  qed
  have few: "length F < 3 \<longrightarrow> (\<forall>b. iget s_grouped b = iget s_reset b)"
  proof (intro impI allI)
    fix b assume "length F < 3"
    then have "groupIds (nextReplicationId s) F = []" by (rule groupIds_short)
    then show "iget s_grouped b = iget s_reset b"
      unfolding grouped by (simp add: map_option_ident)
  qed
  have nxt: "nextReplicationId s_grouped = nextReplicationId s + of_nat (length F div 3)"
    unfolding s_grouped_def afterRegroup_def F_def [symmetric] groupsAssigned_next n7 ..
  from records_afterGroupReset [OF c6, of "replicationId e"] obtain G where
    G: "server (update s_reset) = server (update s6) @ G"
      "\<forall>r\<in>set G. pb_status r = UP \<and> pb_replication_id r = 0"
    unfolding s_reset_def by blast
  have recs: "server (update s_reset) =
       server (update s) @ [Entry_serialize (e\<lparr>status := CRASHED\<rparr>)] @
       (if has (services e) MASTER_SERVICE then [] else [Entry_serialize (e\<lparr>status := DOWN\<rparr>)]) @
       G"
    unfolding G(1) using assms(3) by (simp add: s6_def afterVictimDown_fields)
  have tr: "trackers s_grouped =
       map (\<lambda>t. if has (services e) MASTER_SERVICE
                 then fireCallback (enqueueChange (e\<lparr>status := CRASHED\<rparr>) SERVER_CRASHED t)
                 else fireCallback (enqueueChange (e\<lparr>status := DOWN\<rparr>) SERVER_REMOVED
                        (fireCallback (enqueueChange (e\<lparr>status := CRASHED\<rparr>) SERVER_CRASHED t))))
         (trackers s)"
    by (simp only: s_grouped_def afterRegroup_def groupsAssigned_fields s_reset_def
        afterGroupReset_fields s6_def trackers_afterVictimDown [OF assms(3)])
  have Fdef: "F = rev (groupMembers s_reset 0 0 (length (serverList s_reset)))" by (rule F_def)
  have freeAll: "\<forall>b. b \<in> set F \<longleftrightarrow>
        (\<exists>eb. b \<noteq> sid \<and> iget s b = Some eb \<and> isBackup eb \<and>
              (replicationId eb = 0 \<or> replicationId eb = replicationId e))"
    using free by blast
  show ?thesis
    apply (rule exI [of _ s_reset])
    apply (rule exI [of _ s_grouped])
    apply (rule exI [of _ G])
    apply (rule exI [of _ F])
    apply (intro conjI)
                  apply (rule run)
                 apply (rule regroup)
                apply (rule victim)
               apply (rule victim2)
              apply (rule slot)
             apply (rule rec)
            apply (rule mates)
           apply (rule Fdef)
          apply (rule freeAll)
         apply (rule returned)
        apply (rule few)
       apply (rule nxt)
      apply (rule recs)
     apply (rule G(2))
    apply (rule tr)
    done
qed

lemma exTrio_consistent: "slotsConsistent exTrio"
  by code_simp

lemma exTrio_master: "iget exTrio (exId 1 1) = Some (exEntry 1 1 {MASTER_SERVICE, BACKUP_SERVICE} UP 7)"
  by (simp add: exTrio_def exState_def exSlot_def exEntry_def exId_def iget_def
      Entry_construct_def CoordinatorServerList_init_def)

lemma exTrio_backup: "iget exTrio (exId 2 1) = Some (exEntry 2 1 {BACKUP_SERVICE} UP 7)"
  by (simp add: exTrio_def exState_def exSlot_def exEntry_def exId_def iget_def
      Entry_construct_def CoordinatorServerList_init_def)

lemma exEntry_status: "status (exEntry i g m st rid) = st"
  by (simp add: exEntry_def)

lemma exTrioFree_consistent: "slotsConsistent exTrioFree"
  by code_simp

lemma exTrioFree_backup: "iget exTrioFree (exId 2 1) = Some (exEntry 2 1 {BACKUP_SERVICE} UP 7)"
  by (simp add: exTrioFree_def exState_def exSlot_def exEntry_def exId_def iget_def
      Entry_construct_def CoordinatorServerList_init_def)

text \<open>
  On the list with the three backups of group 7 only, forcing down the master and backup
  in slot 1, or the backup in slot 2, leaves the two others without a group. With a fourth
  backup that had no group, forcing down the backup in slot 2 puts the three others into
  the new group 1.
\<close>

theorem ForceServerDown_complete_effect_witness:
  "slotsConsistent exTrio \<and> slotsConsistent exTrioFree \<and>
   iget exTrio (exId 1 1) = Some (exEntry 1 1 {MASTER_SERVICE, BACKUP_SERVICE} UP 7) \<and>
   iget exTrio (exId 2 1) = Some (exEntry 2 1 {BACKUP_SERVICE} UP 7) \<and>
   iget exTrioFree (exId 2 1) = Some (exEntry 2 1 {BACKUP_SERVICE} UP 7) \<and>
   (case ForceServerDown_complete exTrio (exId 1 1) 5 of
      Returns _ s' \<Rightarrow>
        map (\<lambda>p. map_option (\<lambda>e. (status e, replicationId e)) (entry p)) (serverList s') =
          [None, Some (CRASHED, 7), Some (UP, 0), Some (UP, 0)] \<and>
        recoveries s' = [exEntry 1 1 {MASTER_SERVICE, BACKUP_SERVICE} UP 7]
    | Throws _ _ \<Rightarrow> False
    | Aborts \<Rightarrow> False) \<and>
   (case ForceServerDown_complete exTrio (exId 2 1) 5 of
      Returns _ s' \<Rightarrow>
        map (\<lambda>p. map_option (\<lambda>e. (status e, replicationId e)) (entry p)) (serverList s') =
          [None, Some (UP, 0), None, Some (UP, 0)] \<and>
        recoveries s' = [exEntry 2 1 {BACKUP_SERVICE} UP 7]
    | Throws _ _ \<Rightarrow> False
    | Aborts \<Rightarrow> False) \<and>
   (case ForceServerDown_complete exTrioFree (exId 2 1) 5 of
      Returns _ s' \<Rightarrow>
        map (\<lambda>p. map_option (\<lambda>e. (status e, replicationId e)) (entry p)) (serverList s') =
          [None, Some (UP, 1), None, Some (UP, 1), Some (UP, 1)] \<and>
        recoveries s' = [exEntry 2 1 {BACKUP_SERVICE} UP 7] \<and>
        nextReplicationId s' = 2
    | Throws _ _ \<Rightarrow> False
    | Aborts \<Rightarrow> False)"
proof -
  have run: "(case ForceServerDown_complete exTrio (exId 1 1) 5 of
      Returns _ s' \<Rightarrow>
        map (\<lambda>p. map_option (\<lambda>e. (status e, replicationId e)) (entry p)) (serverList s') =
          [None, Some (CRASHED, 7), Some (UP, 0), Some (UP, 0)] \<and>
        recoveries s' = [exEntry 1 1 {MASTER_SERVICE, BACKUP_SERVICE} UP 7]
    | Throws _ _ \<Rightarrow> False
    | Aborts \<Rightarrow> False) \<and>
   (case ForceServerDown_complete exTrio (exId 2 1) 5 of
      Returns _ s' \<Rightarrow>
        map (\<lambda>p. map_option (\<lambda>e. (status e, replicationId e)) (entry p)) (serverList s') =
          [None, Some (UP, 0), None, Some (UP, 0)] \<and>
        recoveries s' = [exEntry 2 1 {BACKUP_SERVICE} UP 7]
    | Throws _ _ \<Rightarrow> False
    | Aborts \<Rightarrow> False) \<and>
   (case ForceServerDown_complete exTrioFree (exId 2 1) 5 of
      Returns _ s' \<Rightarrow>
        map (\<lambda>p. map_option (\<lambda>e. (status e, replicationId e)) (entry p)) (serverList s') =
          [None, Some (UP, 1), None, Some (UP, 1), Some (UP, 1)] \<and>
        recoveries s' = [exEntry 2 1 {BACKUP_SERVICE} UP 7] \<and>
        nextReplicationId s' = 2
    | Throws _ _ \<Rightarrow> False
    | Aborts \<Rightarrow> False)"
    by code_simp
  show ?thesis
    using ForceServerDown_complete_effect [OF exTrio_consistent exTrio_master exEntry_status, of 5]
      ForceServerDown_complete_effect [OF exTrio_consistent exTrio_backup exEntry_status, of 5]
      ForceServerDown_complete_effect [OF exTrioFree_consistent exTrioFree_backup exEntry_status,
        of 5]
      exTrio_consistent exTrioFree_consistent exTrio_master exTrio_backup exTrioFree_backup run
    by simp
qed

text \<open>
  C5, as stated, fails for the state returned. On the list with the three UP backups of
  group 7 in slots 1 to 3 and an UP backup without a group in slot 4, completing the
  operation for the backup (2, 1) returns with its two mates, (1, 1) and (3, 1), at
  replication id 1, not 0: after the reset they were grouped again, with the backup of
  slot 4.
\<close>

theorem ForceServerDown_complete_regroups_counterexample:
  "map_option (\<lambda>e. (status e, isBackup e, replicationId e)) (iget exTrioFree (exId 2 1)) =
     Some (UP, True, 7) \<and>
   map_option (\<lambda>e. (status e, isBackup e, replicationId e)) (iget exTrioFree (exId 1 1)) =
     Some (UP, True, 7) \<and>
   map_option (\<lambda>e. (status e, isBackup e, replicationId e)) (iget exTrioFree (exId 3 1)) =
     Some (UP, True, 7) \<and>
   (case ForceServerDown_complete exTrioFree (exId 2 1) 5 of
      Returns _ s' \<Rightarrow>
        map_option (\<lambda>e. (status e, replicationId e)) (iget s' (exId 1 1)) = Some (UP, 1) \<and>
        map_option (\<lambda>e. (status e, replicationId e)) (iget s' (exId 3 1)) = Some (UP, 1)
    | Throws _ _ \<Rightarrow> False
    | Aborts \<Rightarrow> False)"
  by code_simp

section \<open>Enlisting a server that replaces another\<close>






lemma length_afterGenerate:
  "length (serverList s) \<le> length (serverList (afterGenerate s))"
  by (simp add: afterGenerate_def grown_def resize_def)
































section \<open>The versions in the queue of updates\<close>





lemma getReference_state:
  "getReferenceFromServerId s sid = Returns e s1 \<Longrightarrow> s1 = s"
  by (simp add: getReferenceFromServerId_def Let_def split: option.splits if_splits)


























































end
